theory Spec2Isabelle
  imports Main "HOL-Library.Char_ord" "HOL-Library.List_Lexorder"
begin

section \<open>Entity model (src/torbox/types.ts)\<close>

text \<open>
  JavaScript numbers that carry ids, sizes, counters and millisecond clock values are
  modelled as \<open>int\<close> (their arithmetic is given with the built-ins below); strings are
  \<open>string\<close>, each \<open>char\<close> standing for one code unit below 256. The field \<open>size\<close> of a file is called \<open>size_bytes\<close>, and the
  \<open>source\<close> and \<open>container_id\<close> of a container carry the prefix \<open>c_\<close>, because
  record fields are global names.
\<close>

datatype Source = torrents | webdl | usenet

record FileEntry =
  source :: Source
  container_id :: int
  file_id :: int
  full_name :: string
  display_name :: string
  size_bytes :: int

record ContainerEntry =
  c_source :: Source
  c_container_id :: int
  container_name :: string
  files :: "FileEntry list"

section \<open>Built-ins of the language used by the filter engine\<close>

text \<open>
  Numbers. An \<open>int\<close> stands for the double of that value: ids, sizes and clock values
  are doubles with an integral value. The sum and the difference of two such doubles
  is the double nearest to the exact result, ties going to the even significand:
  \<open>to_double\<close> rounds an integer to 53 significant bits. Sizes are byte counts, and
  every magnitude is taken below \<open>2 ^ 1024\<close>, where sums and differences of doubles
  are finite.
\<close>

function bit_length :: "nat \<Rightarrow> nat" where
  "bit_length n = (if n = 0 then 0 else Suc (bit_length (n div 2)))"
  by pat_completeness auto
termination
  by (relation "measure (\<lambda>n. n)") auto

declare bit_length.simps [simp del]

definition to_double :: "int \<Rightarrow> int" where
  "to_double x =
     (let a = nat \<bar>x\<bar>
      in if a < 2 ^ 53 then x
         else (let ulp = 2 ^ (bit_length a - 53);
                   q = a div ulp;
                   r = a mod ulp;
                   m = (if 2 * r > ulp \<or> (2 * r = ulp \<and> odd q) then (q + 1) * ulp
                        else q * ulp)
               in sgn x * int m))"

definition js_add :: "int \<Rightarrow> int \<Rightarrow> int" where
  "js_add a b = to_double (a + b)"

definition js_sub :: "int \<Rightarrow> int \<Rightarrow> int" where
  "js_sub a b = to_double (a - b)"

text \<open>
  \<open>Array.prototype.slice(start, fin)\<close> on integer arguments: a negative index counts
  from the end, and both indices are clamped to the array.
\<close>

definition js_slice :: "int \<Rightarrow> int \<Rightarrow> 'a list \<Rightarrow> 'a list" where
  "js_slice start fin xs =
     (let len = int (length xs);
          k = (if start < 0 then max (len + start) 0 else min start len);
          final = (if fin < 0 then max (len + fin) 0 else min fin len)
      in take (nat (final - k)) (drop (nat k) xs))"

text \<open>
  \<open>Array.prototype.sort(cmp)\<close> is a stable sort by the comparator \<open>cmp\<close>, whose
  result is negative, zero or positive. It is modelled as a stable insertion sort: an
  element is placed before the first element it does not compare greater than.
\<close>

fun js_insort :: "('a \<Rightarrow> 'a \<Rightarrow> int) \<Rightarrow> 'a \<Rightarrow> 'a list \<Rightarrow> 'a list" where
  "js_insort cmp x [] = [x]"
| "js_insort cmp x (y # ys) =
     (if cmp x y \<le> 0 then x # y # ys else y # js_insort cmp x ys)"

definition js_sort :: "('a \<Rightarrow> 'a \<Rightarrow> int) \<Rightarrow> 'a list \<Rightarrow> 'a list" where
  "js_sort cmp xs = foldr (js_insort cmp) xs []"

text \<open>
  Strings. \<open>js_isWhiteSpace\<close> is the class \<open>\s\<close> of regular expressions, which is
  also what \<open>trim\<close> removes: tab, line feed, vertical tab, form feed, carriage return,
  space and no-break space among the code units below 256. \<open>toLowerCase\<close> maps the
  capital letters of that range to their small letters.
\<close>

definition js_isWhiteSpace :: "char \<Rightarrow> bool" where
  "js_isWhiteSpace c = ((of_char c :: nat) \<in> {9, 10, 11, 12, 13, 32, 160})"

definition js_trim :: "string \<Rightarrow> string" where
  "js_trim s = rev (dropWhile js_isWhiteSpace (rev (dropWhile js_isWhiteSpace s)))"

definition js_toLowerCase_char :: "char \<Rightarrow> char" where
  "js_toLowerCase_char c =
     (let n = (of_char c :: nat)
      in if (65 \<le> n \<and> n \<le> 90) \<or> (192 \<le> n \<and> n \<le> 222 \<and> n \<noteq> 215)
         then char_of (n + 32) else c)"

definition js_toLowerCase :: "string \<Rightarrow> string" where
  "js_toLowerCase s = map js_toLowerCase_char s"

definition js_startsWith :: "string \<Rightarrow> string \<Rightarrow> bool" where
  "js_startsWith s p = (take (length p) s = p)"

definition js_endsWith :: "string \<Rightarrow> string \<Rightarrow> bool" where
  "js_endsWith s t = (length t \<le> length s \<and> drop (length s - length t) s = t)"

text \<open>
  \<open>s.split(/[,\s]+/)\<close>: the pieces between maximal runs of commas and white space. A
  run at the start or at the end of the string leaves an empty piece there, and the
  empty string splits into one empty piece. \<open>cur\<close> holds the current piece, reversed.
\<close>

definition is_separator :: "char \<Rightarrow> bool" where
  "is_separator c = (c = CHR '','' \<or> js_isWhiteSpace c)"

function js_split_seps :: "string \<Rightarrow> string \<Rightarrow> string list" where
  "js_split_seps cur [] = [rev cur]"
| "js_split_seps cur (c # cs) =
     (if is_separator c then rev cur # js_split_seps [] (dropWhile is_separator cs)
      else js_split_seps (c # cur) cs)"
  by pat_completeness auto
termination
  by (relation "measure (\<lambda>(cur, s). length s)")
     (auto simp: le_imp_less_Suc length_dropWhile_le)

section \<open>Filter and sort engine, pattern variant (lib/filter.ts)\<close>

datatype SortColumn = ColN | ColS | ColD

datatype SortOrder = OrdA | OrdD

text \<open>
  A compiled filter of the pattern variant. The field \<open>regex\<close> stands for
  \<open>regex.test\<close> of the compiled expression: the flags \<open>g\<close> and \<open>y\<close> are removed by
  \<open>sanitizeFlags\<close>, so the test keeps no position between calls.
\<close>

record CompiledFilter =
  regex :: "string \<Rightarrow> bool"
  matchAll :: bool

record FileFilterResult =
  shown_files :: "FileEntry list"
  totalMatched :: nat

record ContainerFilterResult =
  containers :: "ContainerEntry list"
  c_totalMatched :: nat

datatype filter_error =
    FilterTooLong
  | InvalidRegexFlag char
  | InvalidRegExp
  | TooManyTerms
  | TermTooLong string

definition MAX_FILTER_LEN :: nat where
  "MAX_FILTER_LEN = 256"

definition ALLOWED_REGEX_FLAGS :: "char list" where
  "ALLOWED_REGEX_FLAGS = ''dgimsuvy''"

text \<open>The loop of \<open>sanitizeFlags\<close>, with its two accumulators \<open>seen\<close> and \<open>out\<close>.\<close>

fun sanitizeFlags_loop :: "string \<Rightarrow> char list \<Rightarrow> string \<Rightarrow> filter_error + string" where
  "sanitizeFlags_loop [] seen out = Inr out"
| "sanitizeFlags_loop (flag # rest) seen out =
     (if flag \<notin> set ALLOWED_REGEX_FLAGS then Inl (InvalidRegexFlag flag)
      else if flag = CHR ''g'' \<or> flag = CHR ''y'' then sanitizeFlags_loop rest seen out
      else if flag \<notin> set seen then sanitizeFlags_loop rest (flag # seen) (out @ [flag])
      else sanitizeFlags_loop rest seen out)"

definition sanitizeFlags :: "string \<Rightarrow> filter_error + string" where
  "sanitizeFlags flags = sanitizeFlags_loop flags [] []"

text \<open>
  \<open>compileFilter\<close> of the pattern variant. The constructor \<open>new RegExp\<close> of the
  platform is the parameter \<open>newRegExp\<close>: it gives the test of the compiled
  expression, or \<open>None\<close> where it throws.
\<close>

definition compileFilter ::
  "(string \<Rightarrow> string \<Rightarrow> (string \<Rightarrow> bool) option) \<Rightarrow> string \<Rightarrow> string
     \<Rightarrow> filter_error + CompiledFilter" where
  "compileFilter newRegExp pattern flags =
     (if length pattern > MAX_FILTER_LEN then Inl FilterTooLong
      else
        (let normalizedPattern = (if js_trim pattern = [] then ''.*'' else js_trim pattern)
         in case sanitizeFlags flags of
              Inl e \<Rightarrow> Inl e
            | Inr fl \<Rightarrow>
                (case newRegExp normalizedPattern fl of
                   None \<Rightarrow> Inl InvalidRegExp
                 | Some test \<Rightarrow>
                     Inr \<lparr>regex = test,
                          matchAll = (normalizedPattern = ''.+'' \<or> normalizedPattern = ''.*''
                                      \<or> normalizedPattern = ''^.*$'')\<rparr>)))"

definition sortByName :: "(string \<Rightarrow> string \<Rightarrow> int) \<Rightarrow> string \<Rightarrow> string \<Rightarrow> SortOrder \<Rightarrow> int" where
  "sortByName collate a b order =
     (let cmp = collate a b in if order = OrdD then - cmp else cmp)"

definition sortByNumber :: "int \<Rightarrow> int \<Rightarrow> SortOrder \<Rightarrow> int" where
  "sortByNumber a b order =
     (let cmp = js_sub a b in if order = OrdD then - cmp else cmp)"

text \<open>
  The comparator handed to \<open>matched.sort\<close> in \<open>filterAndSortFiles\<close>. The collator
  \<open>NAME_COLLATOR.compare\<close> of the platform is the parameter \<open>collate\<close>.
\<close>

definition compareFiles ::
  "(string \<Rightarrow> string \<Rightarrow> int) \<Rightarrow> SortColumn \<Rightarrow> SortOrder \<Rightarrow> FileEntry \<Rightarrow> FileEntry \<Rightarrow> int" where
  "compareFiles collate column order a b =
     (if column = ColS then
        (let bySize = sortByNumber (size_bytes a) (size_bytes b) order
         in if bySize \<noteq> 0 then bySize else sortByNumber (file_id a) (file_id b) order)
      else
        (let byName = sortByName collate (display_name a) (display_name b) order
         in if byName \<noteq> 0 then byName else sortByNumber (file_id a) (file_id b) order))"

definition filterAndSortFiles ::
  "(string \<Rightarrow> string \<Rightarrow> int) \<Rightarrow> FileEntry list \<Rightarrow> CompiledFilter \<Rightarrow> nat \<Rightarrow> SortColumn \<Rightarrow> SortOrder
     \<Rightarrow> FileFilterResult" where
  "filterAndSortFiles collate fs compiled limit column order =
     (let matched = filter (\<lambda>file. matchAll compiled \<or> regex compiled (full_name file)) fs;
          matched = js_sort (compareFiles collate column order) matched
      in \<lparr>shown_files = js_slice 0 (int limit) matched, totalMatched = length matched\<rparr>)"

definition containerSize :: "ContainerEntry \<Rightarrow> int" where
  "containerSize c = foldl (\<lambda>sum file. js_add sum (size_bytes file)) 0 (files c)"

definition compareContainers ::
  "(string \<Rightarrow> string \<Rightarrow> int) \<Rightarrow> SortColumn \<Rightarrow> SortOrder \<Rightarrow> ContainerEntry \<Rightarrow> ContainerEntry \<Rightarrow> int" where
  "compareContainers collate column order a b =
     (if column = ColS then
        (let aSize = containerSize a; bSize = containerSize b;
             bySize = sortByNumber aSize bSize order
         in if bySize \<noteq> 0 then bySize
            else sortByNumber (c_container_id a) (c_container_id b) order)
      else
        (let byName = sortByName collate (container_name a) (container_name b) order
         in if byName \<noteq> 0 then byName
            else sortByNumber (c_container_id a) (c_container_id b) order))"

definition containerMatches :: "CompiledFilter \<Rightarrow> ContainerEntry \<Rightarrow> bool" where
  "containerMatches compiled container =
     (if matchAll compiled then True
      else if regex compiled (container_name container) then True
      else list_ex (\<lambda>file. regex compiled (full_name file)) (files container))"

definition filterAndSortContainers ::
  "(string \<Rightarrow> string \<Rightarrow> int) \<Rightarrow> ContainerEntry list \<Rightarrow> CompiledFilter \<Rightarrow> nat \<Rightarrow> SortColumn
     \<Rightarrow> SortOrder \<Rightarrow> ContainerFilterResult" where
  "filterAndSortContainers collate cs compiled limit column order =
     (let matched = filter (containerMatches compiled) cs;
          matched = js_sort (compareContainers collate column order) matched
      in \<lparr>containers = js_slice 0 (int limit) matched, c_totalMatched = length matched\<rparr>)"

section \<open>Filter and sort engine, term variant (lib/filter.ts, second version)\<close>

text \<open>
  The second version of the module has the same sorting and truncation and differs in
  the compiled filter: a list of suffix terms instead of a regular expression. Its
  functions carry the suffix \<open>_terms\<close>, and its flag is the field \<open>t_matchAll\<close>.
\<close>

definition MAX_FILTER_TERMS :: nat where
  "MAX_FILTER_TERMS = 24"

definition MAX_TERM_LEN :: nat where
  "MAX_TERM_LEN = 32"

record TermFilter =
  t_matchAll :: bool
  raw :: string
  terms :: "string list"

definition normalizeTerm :: "string \<Rightarrow> string" where
  "normalizeTerm term =
     (let v = js_toLowerCase (js_trim term);
          v = (if js_startsWith v ''*.'' then drop 1 v else v);
          v = (if \<not> js_startsWith v ''.'' then CHR ''.'' # v else v)
      in v)"

definition splitTerms :: "string \<Rightarrow> filter_error + string list" where
  "splitTerms pattern =
     (let ts = filter (\<lambda>part. part \<noteq> []) (map js_trim (js_split_seps [] pattern))
      in if length ts > MAX_FILTER_TERMS then Inl TooManyTerms
         else (case find (\<lambda>t. length t > MAX_TERM_LEN) ts of
                 Some t \<Rightarrow> Inl (TermTooLong (take 12 t))
               | None \<Rightarrow> Inr ts))"

definition nameMatchesAnyTerm :: "string \<Rightarrow> string list \<Rightarrow> bool" where
  "nameMatchesAnyTerm name ts =
     (let normalized = js_toLowerCase name
      in list_ex (\<lambda>t. js_endsWith normalized t) ts)"

definition compileFilter_terms :: "string \<Rightarrow> string \<Rightarrow> filter_error + TermFilter" where
  "compileFilter_terms pattern flags =
     (if length pattern > MAX_FILTER_LEN then Inl FilterTooLong
      else
        (let normalizedPattern = (if js_trim pattern = [] then ''.*'' else js_trim pattern);
             all = (normalizedPattern = ''.+'' \<or> normalizedPattern = ''.*''
                    \<or> normalizedPattern = ''^.*$'')
         in if all then Inr \<lparr>t_matchAll = True, raw = normalizedPattern, terms = []\<rparr>
            else (case splitTerms normalizedPattern of
                    Inl e \<Rightarrow> Inl e
                  | Inr split \<Rightarrow>
                      (let ts = map normalizeTerm split
                       in if length ts = 0
                          then Inr \<lparr>t_matchAll = True, raw = normalizedPattern, terms = []\<rparr>
                          else Inr \<lparr>t_matchAll = False, raw = normalizedPattern, terms = ts\<rparr>))))"

definition fileMatches_terms :: "TermFilter \<Rightarrow> FileEntry \<Rightarrow> bool" where
  "fileMatches_terms compiled file =
     (if t_matchAll compiled then True
      else nameMatchesAnyTerm (full_name file) (terms compiled))"

definition filterAndSortFiles_terms ::
  "(string \<Rightarrow> string \<Rightarrow> int) \<Rightarrow> FileEntry list \<Rightarrow> TermFilter \<Rightarrow> nat \<Rightarrow> SortColumn \<Rightarrow> SortOrder
     \<Rightarrow> FileFilterResult" where
  "filterAndSortFiles_terms collate fs compiled limit column order =
     (let matched = filter (fileMatches_terms compiled) fs;
          matched = js_sort (compareFiles collate column order) matched
      in \<lparr>shown_files = js_slice 0 (int limit) matched, totalMatched = length matched\<rparr>)"

definition containerMatches_terms :: "TermFilter \<Rightarrow> ContainerEntry \<Rightarrow> bool" where
  "containerMatches_terms compiled container =
     (if t_matchAll compiled then True
      else list_ex (\<lambda>file. nameMatchesAnyTerm (full_name file) (terms compiled))
             (files container))"

definition filterAndSortContainers_terms ::
  "(string \<Rightarrow> string \<Rightarrow> int) \<Rightarrow> ContainerEntry list \<Rightarrow> TermFilter \<Rightarrow> nat \<Rightarrow> SortColumn
     \<Rightarrow> SortOrder \<Rightarrow> ContainerFilterResult" where
  "filterAndSortContainers_terms collate cs compiled limit column order =
     (let matched = filter (containerMatches_terms compiled) cs;
          matched = js_sort (compareContainers collate column order) matched
      in \<lparr>containers = js_slice 0 (int limit) matched, c_totalMatched = length matched\<rparr>)"

section \<open>Maps of the language\<close>

text \<open>
  A \<open>Map\<close> with string keys is an association list in insertion order, which is the
  order its iterators follow. \<open>set\<close> on a key that is present replaces the value in
  place; on a new key it appends the entry. A well-formed map has no key twice.
\<close>

type_synonym 'v js_map = "(string \<times> 'v) list"

definition js_map_get :: "'v js_map \<Rightarrow> string \<Rightarrow> 'v option" where
  "js_map_get m k = map_of m k"

fun js_map_set :: "string \<Rightarrow> 'v \<Rightarrow> 'v js_map \<Rightarrow> 'v js_map" where
  "js_map_set k v [] = [(k, v)]"
| "js_map_set k v (e # m) = (if fst e = k then (k, v) # m else e # js_map_set k v m)"

definition js_map_delete :: "string \<Rightarrow> 'v js_map \<Rightarrow> 'v js_map" where
  "js_map_delete k m = filter (\<lambda>e. fst e \<noteq> k) m"

definition wf_map :: "'v js_map \<Rightarrow> bool" where
  "wf_map m = distinct (map fst m)"

section \<open>Rate limiter (index.ts)\<close>

definition RATE_LIMIT_WINDOW_MS :: int where
  "RATE_LIMIT_WINDOW_MS = 60000"

definition RATE_LIMIT_MAX_REQUESTS_PER_IP :: int where
  "RATE_LIMIT_MAX_REQUESTS_PER_IP = 240"

definition RATE_LIMIT_MAX_REQUESTS_PER_IP_KEY :: int where
  "RATE_LIMIT_MAX_REQUESTS_PER_IP_KEY = 240"

definition RATE_LIMIT_MAX_UNIQUE_KEYS_PER_IP :: nat where
  "RATE_LIMIT_MAX_UNIQUE_KEYS_PER_IP = 3"

definition RATE_LIMIT_STATE_SOFT_MAX :: nat where
  "RATE_LIMIT_STATE_SOFT_MAX = 10000"

record Counter =
  count :: int
  resetAt :: int

text \<open>
  A churn entry. Its \<open>Set\<close> of keys is a list in insertion order without repetition;
  \<open>js_set_add\<close> is \<open>Set.prototype.add\<close>, and the size of the set is the length of the
  list. The field \<open>resetAt\<close> of the entry is called \<open>churn_resetAt\<close>.
\<close>

record ChurnEntry =
  keys :: "string list"
  churn_resetAt :: int

definition js_set_add :: "string \<Rightarrow> string list \<Rightarrow> string list" where
  "js_set_add k ks = (if k \<in> set ks then ks else ks @ [k])"

record RateLimitState =
  ipRateLimitState :: "Counter js_map"
  keyRateLimitState :: "Counter js_map"
  keyChurnState :: "ChurnEntry js_map"

text \<open>
  The loops of the two pruning functions visit the entries the map had when the loop
  began and delete the visited entry when its window is over.
\<close>

definition pruneCounterMap :: "Counter js_map \<Rightarrow> int \<Rightarrow> Counter js_map" where
  "pruneCounterMap m now =
     (if length m \<le> RATE_LIMIT_STATE_SOFT_MAX then m
      else foldl (\<lambda>acc e. if now \<ge> resetAt (snd e) then js_map_delete (fst e) acc else acc) m m)"

definition pruneKeyChurnMap :: "ChurnEntry js_map \<Rightarrow> int \<Rightarrow> ChurnEntry js_map" where
  "pruneKeyChurnMap m now =
     (if length m \<le> RATE_LIMIT_STATE_SOFT_MAX then m
      else foldl (\<lambda>acc e. if now \<ge> churn_resetAt (snd e) then js_map_delete (fst e) acc else acc)
             m m)"

text \<open>
  \<open>consumeRateLimit\<close> returns whether the bucket is limited, and the map as the call
  leaves it. The counter object is updated in place, so the entry keeps its position.
\<close>

definition consumeRateLimit ::
  "Counter js_map \<Rightarrow> string \<Rightarrow> int \<Rightarrow> int \<Rightarrow> bool \<times> Counter js_map" where
  "consumeRateLimit m0 bucket maxRequests now =
     (let m = pruneCounterMap m0 now;
          fresh = (False, js_map_set bucket \<lparr>count = 1, resetAt = now + RATE_LIMIT_WINDOW_MS\<rparr> m)
      in case js_map_get m bucket of
           None \<Rightarrow> fresh
         | Some current \<Rightarrow>
             if now \<ge> resetAt current then fresh
             else (let current' = current\<lparr>count := count current + 1\<rparr>
                   in (count current' > maxRequests, js_map_set bucket current' m)))"

definition consumeKeyChurnLimit ::
  "ChurnEntry js_map \<Rightarrow> string \<Rightarrow> string \<Rightarrow> int \<Rightarrow> bool \<times> ChurnEntry js_map" where
  "consumeKeyChurnLimit m0 ipBucket keyValue now =
     (let m = pruneKeyChurnMap m0 now;
          fresh = (False, js_map_set ipBucket
                     \<lparr>keys = [keyValue], churn_resetAt = now + RATE_LIMIT_WINDOW_MS\<rparr> m)
      in case js_map_get m ipBucket of
           None \<Rightarrow> fresh
         | Some current \<Rightarrow>
             if now \<ge> churn_resetAt current then fresh
             else (let current' = current\<lparr>keys := js_set_add keyValue (keys current)\<rparr>
                   in (length (keys current') > RATE_LIMIT_MAX_UNIQUE_KEYS_PER_IP,
                       js_map_set ipBucket current' m)))"

text \<open>
  Repeated calls on one bucket: the clock values of the calls, in order, give the list
  of their results and the map after the last call.
\<close>

fun consumeRateLimit_calls ::
  "Counter js_map \<Rightarrow> string \<Rightarrow> int \<Rightarrow> int list \<Rightarrow> bool list \<times> Counter js_map" where
  "consumeRateLimit_calls m bucket maxRequests [] = ([], m)"
| "consumeRateLimit_calls m bucket maxRequests (now # later) =
     (let r = consumeRateLimit m bucket maxRequests now;
          rest = consumeRateLimit_calls (snd r) bucket maxRequests later
      in (fst r # fst rest, snd rest))"

text \<open>
  Repeated churn checks for one address: the access key and the clock value of each
  call, in order.
\<close>

fun consumeKeyChurnLimit_calls ::
  "ChurnEntry js_map \<Rightarrow> string \<Rightarrow> (string \<times> int) list \<Rightarrow> bool list \<times> ChurnEntry js_map" where
  "consumeKeyChurnLimit_calls m ipBucket [] = ([], m)"
| "consumeKeyChurnLimit_calls m ipBucket (call # later) =
     (let r = consumeKeyChurnLimit m ipBucket (fst call) (snd call);
          rest = consumeKeyChurnLimit_calls (snd r) ipBucket later
      in (fst r # fst rest, snd rest))"

text \<open>
  \<open>isRateLimited\<close> on the three maps of the module, with the clock value \<open>now\<close> it
  reads once. An absent or empty address gives the bucket \<open>unknown\<close>. Each \<open>if\<close>
  returns as soon as its check reports limited.
\<close>

definition isRateLimited ::
  "RateLimitState \<Rightarrow> string option \<Rightarrow> string \<Rightarrow> int \<Rightarrow> bool \<times> RateLimitState" where
  "isRateLimited s ip key now =
     (let ipBucket = (case ip of None \<Rightarrow> ''unknown'' | Some a \<Rightarrow> if a = [] then ''unknown'' else a);
          ipKeyBucket = ipBucket @ ''|'' @ key;
          r1 = consumeRateLimit (ipRateLimitState s) ipBucket RATE_LIMIT_MAX_REQUESTS_PER_IP now;
          s1 = s\<lparr>ipRateLimitState := snd r1\<rparr>
      in if fst r1 then (True, s1)
         else
           (let r2 = consumeRateLimit (keyRateLimitState s1) ipKeyBucket
                       RATE_LIMIT_MAX_REQUESTS_PER_IP_KEY now;
                s2 = s1\<lparr>keyRateLimitState := snd r2\<rparr>
            in if fst r2 then (True, s2)
               else
                 (let r3 = consumeKeyChurnLimit (keyChurnState s2) ipBucket key now;
                      s3 = s2\<lparr>keyChurnState := snd r3\<rparr>
                  in if fst r3 then (True, s3) else (False, s3))))"

text \<open>
  The admission check as the specification words it, for comparison with
  \<open>isRateLimited\<close>: the three checks run unconditionally, each on its own map, and the
  request is rejected if any of them reports limited.
\<close>

definition admit_unconditional ::
  "RateLimitState \<Rightarrow> string option \<Rightarrow> string \<Rightarrow> int \<Rightarrow> bool \<times> RateLimitState" where
  "admit_unconditional s ip key now =
     (let ipBucket = (case ip of None \<Rightarrow> ''unknown'' | Some a \<Rightarrow> if a = [] then ''unknown'' else a);
          ipKeyBucket = ipBucket @ ''|'' @ key;
          r1 = consumeRateLimit (ipRateLimitState s) ipBucket RATE_LIMIT_MAX_REQUESTS_PER_IP now;
          r2 = consumeRateLimit (keyRateLimitState s) ipKeyBucket
                 RATE_LIMIT_MAX_REQUESTS_PER_IP_KEY now;
          r3 = consumeKeyChurnLimit (keyChurnState s) ipBucket key now
      in (fst r1 \<or> fst r2 \<or> fst r3,
          \<lparr>ipRateLimitState = snd r1, keyRateLimitState = snd r2, keyChurnState = snd r3\<rparr>))"

text \<open>
  Repeated admission calls, and the state that 240 calls at time 0 from the address
  1.2.3.4 with the access key k1 leave behind when they start from empty maps.
\<close>

fun isRateLimited_calls ::
  "RateLimitState \<Rightarrow> (string option \<times> string \<times> int) list \<Rightarrow> bool list \<times> RateLimitState" where
  "isRateLimited_calls s [] = ([], s)"
| "isRateLimited_calls s (call # later) =
     (let r = isRateLimited s (fst call) (fst (snd call)) (snd (snd call));
          rest = isRateLimited_calls (snd r) later
      in (fst r # fst rest, snd rest))"

text \<open>
  A bound on every counter of a counter map, whatever its window.
\<close>

definition counters_at_most :: "int \<Rightarrow> Counter js_map \<Rightarrow> bool" where
  "counters_at_most c m = list_all (\<lambda>e. count (snd e) \<le> c) m"

definition state_empty :: RateLimitState where
  "state_empty = \<lparr>ipRateLimitState = [], keyRateLimitState = [], keyChurnState = []\<rparr>"

definition state_after_240 :: RateLimitState where
  "state_after_240 =
     \<lparr>ipRateLimitState = [(''1.2.3.4'', \<lparr>count = 240, resetAt = 60000\<rparr>)],
      keyRateLimitState = [(''1.2.3.4|k1'', \<lparr>count = 240, resetAt = 60000\<rparr>)],
      keyChurnState = [(''1.2.3.4'', \<lparr>keys = [''k1''], churn_resetAt = 60000\<rparr>)]\<rparr>"

section \<open>Caching upstream client (torbox/client.ts)\<close>

definition LIST_CACHE_TTL_MS :: int where
  "LIST_CACHE_TTL_MS = 15000"

definition CACHE_SOFT_MAX :: nat where
  "CACHE_SOFT_MAX = 2000"

record 'a CacheEntry =
  cached_value :: 'a
  expiresAt :: int


text \<open>
  The second loop of \<open>trimCache\<close>: the iterator over the keys of the map gives, at
  each step, the first entry that is left; the loop deletes it and stops once
  \<open>removed\<close> reaches \<open>overflow\<close>, or when no entry is left.
\<close>

function evict_loop :: "'a CacheEntry js_map \<Rightarrow> nat \<Rightarrow> nat \<Rightarrow> 'a CacheEntry js_map" where
  "evict_loop [] removed overflow = []"
| "evict_loop (e # m) removed overflow =
     (let m' = js_map_delete (fst e) (e # m);
          removed' = removed + 1
      in if removed' \<ge> overflow then m' else evict_loop m' removed' overflow)"
  by pat_completeness auto
termination
  by (relation "measure (\<lambda>(m, removed, overflow). length m)")
     (auto simp: js_map_delete_def le_imp_less_Suc)

definition trimCache :: "'a CacheEntry js_map \<Rightarrow> int \<Rightarrow> 'a CacheEntry js_map" where
  "trimCache m now =
     (if length m \<le> CACHE_SOFT_MAX then m
      else
        (let m1 = foldl (\<lambda>acc e. if now \<ge> expiresAt (snd e) then js_map_delete (fst e) acc else acc)
                    m m
         in if length m1 \<le> CACHE_SOFT_MAX then m1
            else evict_loop m1 0 (length m1 - CACHE_SOFT_MAX)))"

text \<open>
  \<open>cacheSet\<close> reads the clock twice: \<open>now_trim\<close> inside \<open>trimCache\<close> and \<open>now\<close>
  for the expiry of the new entry.
\<close>

definition cacheSet ::
  "'a CacheEntry js_map \<Rightarrow> string \<Rightarrow> 'a \<Rightarrow> int \<Rightarrow> int \<Rightarrow> 'a CacheEntry js_map" where
  "cacheSet m key v now_trim now =
     js_map_set key \<lparr>cached_value = v, expiresAt = now + LIST_CACHE_TTL_MS\<rparr> (trimCache m now_trim)"

definition source_name :: "Source \<Rightarrow> string" where
  "source_name src = (case src of torrents \<Rightarrow> ''torrents'' | webdl \<Rightarrow> ''webdl'' | usenet \<Rightarrow> ''usenet'')"




section \<open>Listing of all sources (index.ts, the handler \<open>fetch\<close>)\<close>

text \<open>
  The branch of the request handler for the root path. \<open>settled\<close> is what
  \<open>Promise.allSettled\<close> gives for the three sources of \<open>SOURCES\<close>, in their order. The
  response keeps the status and what the page is rendered from; the rendering of the
  page itself is not modelled.
\<close>

datatype 'a settled = Fulfilled 'a | Rejected string

definition SOURCES :: "Source list" where
  "SOURCES = [torrents, webdl, usenet]"

datatype Response =
    TextResponse nat string
  | ListingResponse nat "ContainerEntry list" nat "string list"

text \<open>The body of \<open>settled.forEach\<close>, on the two accumulators.\<close>

definition collect_settled ::
  "ContainerEntry list \<times> string list \<Rightarrow> ContainerEntry list settled \<times> nat
     \<Rightarrow> ContainerEntry list \<times> string list" where
  "collect_settled acc r =
     (case fst r of
        Fulfilled v \<Rightarrow> (fst acc @ v, snd acc)
      | Rejected reason \<Rightarrow> (fst acc, snd acc @ [source_name (SOURCES ! snd r) @ '': unavailable'']))"

definition list_all_sources ::
  "(string \<Rightarrow> string \<Rightarrow> int) \<Rightarrow> ContainerEntry list settled list \<Rightarrow> CompiledFilter \<Rightarrow> nat
     \<Rightarrow> SortColumn \<Rightarrow> SortOrder \<Rightarrow> Response" where
  "list_all_sources collate settled compiledFilter limit sortC sortO =
     (let acc = foldl collect_settled ([], []) (zip settled [0 ..< length settled]);
          allContainers = fst acc;
          errors = snd acc
      in if length allContainers = 0 \<and> length errors > 0
         then TextResponse 502 ''Upstream provider unavailable''
         else
           (let r = filterAndSortContainers collate allContainers compiledFilter limit sortC sortO
            in ListingResponse 200 (containers r) (c_totalMatched r) errors))"

section \<open>Arrays in a store\<close>

text \<open>
  To state that a function leaves the array of its caller alone, arrays live in a
  store: the list of all arrays, an array being named by its index. \<open>filter\<close> and
  \<open>slice\<close> allocate a new array; \<open>sort\<close> sorts the array it is called on in place.
\<close>

type_synonym 'a store = "'a list list"

definition store_alloc :: "'a list \<Rightarrow> 'a store \<Rightarrow> nat \<times> 'a store" where
  "store_alloc xs h = (length h, h @ [xs])"

definition array_filter :: "('a \<Rightarrow> bool) \<Rightarrow> nat \<Rightarrow> 'a store \<Rightarrow> nat \<times> 'a store" where
  "array_filter p a h = store_alloc (filter p (h ! a)) h"

definition array_sort :: "('a \<Rightarrow> 'a \<Rightarrow> int) \<Rightarrow> nat \<Rightarrow> 'a store \<Rightarrow> 'a store" where
  "array_sort cmp a h = h[a := js_sort cmp (h ! a)]"

definition array_slice :: "int \<Rightarrow> int \<Rightarrow> nat \<Rightarrow> 'a store \<Rightarrow> nat \<times> 'a store" where
  "array_slice start fin a h = store_alloc (js_slice start fin (h ! a)) h"

text \<open>
  The two functions on a store: \<open>fs\<close> and \<open>cs\<close> name the array of the caller, and the
  result names the array returned in the field \<open>files\<close> or \<open>containers\<close>, with
  \<open>totalMatched\<close> beside it.
\<close>

definition filterAndSortFiles_store ::
  "(string \<Rightarrow> string \<Rightarrow> int) \<Rightarrow> nat \<Rightarrow> CompiledFilter \<Rightarrow> nat \<Rightarrow> SortColumn \<Rightarrow> SortOrder
     \<Rightarrow> FileEntry store \<Rightarrow> (nat \<times> nat) \<times> FileEntry store" where
  "filterAndSortFiles_store collate fs compiled limit column order h =
     (let m = array_filter (\<lambda>file. matchAll compiled \<or> regex compiled (full_name file)) fs h;
          matched = fst m;
          h1 = array_sort (compareFiles collate column order) matched (snd m);
          s = array_slice 0 (int limit) matched h1
      in ((fst s, length (snd s ! matched)), snd s))"

definition filterAndSortContainers_store ::
  "(string \<Rightarrow> string \<Rightarrow> int) \<Rightarrow> nat \<Rightarrow> CompiledFilter \<Rightarrow> nat \<Rightarrow> SortColumn \<Rightarrow> SortOrder
     \<Rightarrow> ContainerEntry store \<Rightarrow> (nat \<times> nat) \<times> ContainerEntry store" where
  "filterAndSortContainers_store collate cs compiled limit column order h =
     (let m = array_filter (containerMatches compiled) cs h;
          matched = fst m;
          h1 = array_sort (compareContainers collate column order) matched (snd m);
          s = array_slice 0 (int limit) matched h1
      in ((fst s, length (snd s ! matched)), snd s))"

section \<open>Consistent comparators\<close>

text \<open>
  What the language asks of a comparator for \<open>sort\<close> to have a defined result: the
  sign of \<open>cmp b a\<close> is the opposite of the sign of \<open>cmp a b\<close>, and the relation
  \<open>cmp a b \<le> 0\<close> is transitive. The collator of the platform is taken to be one.
\<close>

definition consistent_comparator :: "('a \<Rightarrow> 'a \<Rightarrow> int) \<Rightarrow> bool" where
  "consistent_comparator cmp \<longleftrightarrow>
     (\<forall>a b. sgn (cmp b a) = - sgn (cmp a b)) \<and>
     (\<forall>a b c. cmp a b \<le> 0 \<and> cmp b c \<le> 0 \<longrightarrow> cmp a c \<le> 0)"

text \<open>
  A collator to run the engine on: it compares the lower-cased names code unit by code
  unit.
\<close>

definition simple_collate :: "string \<Rightarrow> string \<Rightarrow> int" where
  "simple_collate a b =
     (let x = js_toLowerCase a; y = js_toLowerCase b
      in if x < y then - 1 else if x = y then 0 else 1)"

section \<open>Example entities\<close>

text \<open>The two containers of the end-to-end example of the specification.\<close>

definition file_a :: FileEntry where
  "file_a = \<lparr>source = torrents, container_id = 1, file_id = 10, full_name = ''a.mkv'',
              display_name = ''a.mkv'', size_bytes = 1000\<rparr>"

definition file_b :: FileEntry where
  "file_b = \<lparr>source = torrents, container_id = 2, file_id = 20, full_name = ''b.mkv'',
              display_name = ''b.mkv'', size_bytes = 500\<rparr>"

definition container_alpha :: ContainerEntry where
  "container_alpha = \<lparr>c_source = torrents, c_container_id = 1, container_name = ''Alpha'',
                       files = [file_a]\<rparr>"

definition container_beta :: ContainerEntry where
  "container_beta = \<lparr>c_source = torrents, c_container_id = 2, container_name = ''beta'',
                      files = [file_b]\<rparr>"

text \<open>
  Two crowded maps. \<open>crowded_counters\<close> holds 10002 counters whose windows end at
  60000, for the buckets a, aa, aaa and so on. \<open>crowded_cache\<close> holds 2001 listings
  that expire at 15000, stored for the source webdl under the access keys k, kk, kkk
  and so on, in that order.
\<close>

definition crowded_counters :: "Counter js_map" where
  "crowded_counters =
     map (\<lambda>i. (replicate (Suc i) CHR ''a'', \<lparr>count = 1, resetAt = 60000\<rparr>)) [0..<10002]"

definition crowded_cache :: "ContainerEntry list CacheEntry js_map" where
  "crowded_cache =
     map (\<lambda>i. (''webdl:'' @ replicate (Suc i) CHR ''k'',
               \<lparr>cached_value = [container_alpha], expiresAt = 15000\<rparr>)) [0..<2001]"

text \<open>
  Two containers whose sizes differ as integers and agree as doubles: the files of the
  first have \<open>2 ^ 53\<close> bytes and one byte, the file of the second \<open>2 ^ 53\<close> bytes.
\<close>

definition container_rounded :: ContainerEntry where
  "container_rounded =
     \<lparr>c_source = torrents, c_container_id = 1, container_name = ''rounded'',
      files = [\<lparr>source = torrents, container_id = 1, file_id = 1, full_name = ''rounded/x'',
                 display_name = ''x'', size_bytes = 2 ^ 53\<rparr>,
               \<lparr>source = torrents, container_id = 1, file_id = 2, full_name = ''rounded/y'',
                 display_name = ''y'', size_bytes = 1\<rparr>]\<rparr>"

definition container_exact :: ContainerEntry where
  "container_exact =
     \<lparr>c_source = torrents, c_container_id = 2, container_name = ''exact'',
      files = [\<lparr>source = torrents, container_id = 2, file_id = 3, full_name = ''exact/z'',
                 display_name = ''z'', size_bytes = 2 ^ 53\<rparr>]\<rparr>"


section \<open>Facts about the built-ins\<close>

lemma length_js_insort: "length (js_insort cmp x xs) = Suc (length xs)"
  by (induction xs) auto

lemma length_js_sort: "length (js_sort cmp xs) = length xs"
  unfolding js_sort_def by (induction xs) (auto simp: length_js_insort)

lemma js_slice_0_nat: "js_slice 0 (int n) xs = take n xs"
  by (cases "n \<le> length xs") (auto simp: js_slice_def Let_def min_def)

section \<open>Sorting\<close>

lemma cc_sgn: "consistent_comparator cmp \<Longrightarrow> sgn (cmp b a) = - sgn (cmp a b)"
  unfolding consistent_comparator_def by blast

lemma cc_flip: "consistent_comparator cmp \<Longrightarrow> (cmp b a \<le> 0) = (0 \<le> cmp a b)"
  using cc_sgn[of cmp b a]
  by (cases "cmp a b" "0::int" rule: linorder_cases; cases "cmp b a" "0::int" rule: linorder_cases)
     (simp_all add: sgn_if)

lemma cc_flip0: "consistent_comparator cmp \<Longrightarrow> (cmp b a = 0) = (cmp a b = 0)"
  using cc_sgn[of cmp b a]
  by (cases "cmp a b" "0::int" rule: linorder_cases; cases "cmp b a" "0::int" rule: linorder_cases)
     (simp_all add: sgn_if)

lemma cc_zero:
  assumes "consistent_comparator cmp" "cmp a b \<le> 0" "cmp b a \<le> 0"
  shows "cmp a b = 0"
proof -
  have "0 \<le> cmp a b" using cc_flip[OF assms(1), where a = a and b = b] assms(3) by blast
  with assms(2) show ?thesis by simp
qed

lemma cc_trans: "consistent_comparator cmp \<Longrightarrow> cmp a b \<le> 0 \<Longrightarrow> cmp b c \<le> 0 \<Longrightarrow> cmp a c \<le> 0"
  unfolding consistent_comparator_def by blast

lemma cc_total: "consistent_comparator cmp \<Longrightarrow> cmp a b \<le> 0 \<or> cmp b a \<le> 0"
  using cc_flip[of cmp b a] by linarith

lemma set_js_insort: "set (js_insort cmp x xs) = insert x (set xs)"
  by (induction xs) auto

lemma set_js_sort: "set (js_sort cmp xs) = set xs"
  unfolding js_sort_def by (induction xs) (auto simp: set_js_insort)

lemma distinct_js_insort: "distinct (js_insort cmp x xs) = (x \<notin> set xs \<and> distinct xs)"
  by (induction xs) (auto simp: set_js_insort)

lemma distinct_js_sort: "distinct (js_sort cmp xs) = distinct xs"
  unfolding js_sort_def
  by (induction xs) (auto simp: distinct_js_insort set_js_sort[unfolded js_sort_def])

lemma sorted_js_insort:
  assumes "consistent_comparator cmp" "sorted_wrt (\<lambda>a b. cmp a b \<le> 0) xs"
  shows "sorted_wrt (\<lambda>a b. cmp a b \<le> 0) (js_insort cmp x xs)"
  using assms(2)
proof (induction xs)
  case Nil
  then show ?case by simp
next
  case (Cons y ys)
  show ?case
  proof (cases "cmp x y \<le> 0")
    case True
    have "\<forall>z\<in>set ys. cmp x z \<le> 0"
      using Cons.prems True cc_trans[OF assms(1)] by auto
    with True Cons.prems show ?thesis by simp
  next
    case False
    then have "cmp y x \<le> 0" using cc_total[OF assms(1), of x y] by simp
    with False Cons show ?thesis by (auto simp: set_js_insort)
  qed
qed

lemma sorted_js_sort:
  "consistent_comparator cmp \<Longrightarrow> sorted_wrt (\<lambda>a b. cmp a b \<le> 0) (js_sort cmp xs)"
  unfolding js_sort_def by (induction xs) (auto simp: sorted_js_insort)

lemma sorted_distinct_unique:
  assumes "sorted_wrt le xs" "sorted_wrt le ys" "distinct xs" "distinct ys" "set xs = set ys"
    and anti: "\<And>a b. a \<in> set xs \<Longrightarrow> b \<in> set xs \<Longrightarrow> le a b \<Longrightarrow> le b a \<Longrightarrow> a = b"
  shows "xs = ys"
  using assms
proof (induction xs arbitrary: ys)
  case Nil
  then show ?case by simp
next
  case (Cons x xs)
  then obtain y ys' where ys: "ys = y # ys'" by (cases ys) auto
  have "x = y"
  proof (rule ccontr)
    assume ne: "x \<noteq> y"
    with Cons.prems(5) ys have "x \<in> set ys'" "y \<in> set xs" by auto
    with Cons.prems(1,2) ys have "le y x" "le x y" by auto
    with Cons.prems(6)[of x y] ne \<open>y \<in> set xs\<close> show False by auto
  qed
  moreover have "set xs = set ys'"
    using Cons.prems(3,4,5) ys \<open>x = y\<close> by auto
  moreover have "xs = ys'"
    using Cons.IH[of ys'] Cons.prems ys \<open>set xs = set ys'\<close> by auto
  ultimately show ?case using ys by simp
qed

lemma sorted_wrt_strict:
  assumes "sorted_wrt (\<lambda>a b. cmp a b \<le> (0::int)) xs" "distinct xs"
    and "\<And>a b. a \<in> set xs \<Longrightarrow> b \<in> set xs \<Longrightarrow> cmp a b = 0 \<Longrightarrow> a = b"
  shows "sorted_wrt (\<lambda>a b. cmp a b < 0) xs"
  using assms by (induction xs) (auto simp: order_less_le)

lemma cc_neg:
  assumes "consistent_comparator cmp"
  shows "consistent_comparator (\<lambda>a b. - cmp a b)"
proof -
  have "sgn (- cmp b a) = - sgn (- cmp a b)" for a b
    using cc_sgn[OF assms, of b a] by (simp add: sgn_minus)
  moreover have "- cmp a c \<le> 0" if "- cmp a b \<le> 0 \<and> - cmp b c \<le> 0" for a b c
  proof -
    from that have "cmp b a \<le> 0" "cmp c b \<le> 0"
      by (simp_all add: cc_flip[OF assms])
    then have "cmp c a \<le> 0" using cc_trans[OF assms] by blast
    then show ?thesis by (simp add: cc_flip[OF assms])
  qed
  ultimately show ?thesis unfolding consistent_comparator_def by blast
qed

lemma js_sort_unique:
  assumes cc: "consistent_comparator cmp" and d: "distinct xs"
    and strict: "\<And>a b. a \<in> set xs \<Longrightarrow> b \<in> set xs \<Longrightarrow> cmp a b = 0 \<Longrightarrow> a = b"
    and s: "sorted_wrt (\<lambda>a b. cmp a b \<le> 0) ys" and dy: "distinct ys" and sets: "set ys = set xs"
  shows "ys = js_sort cmp xs"
proof -
  have anti: "a = b" if "a \<in> set ys" "b \<in> set ys" "cmp a b \<le> 0" "cmp b a \<le> 0" for a b
  proof -
    from that(3,4) have "cmp a b = 0" using cc_zero[OF cc] by blast
    with that(1,2) strict sets show ?thesis by simp
  qed
  show ?thesis
    by (rule sorted_distinct_unique[OF s sorted_js_sort[OF cc]])
       (use d dy sets anti in \<open>auto simp: distinct_js_sort set_js_sort\<close>)
qed

lemma js_sort_neg_rev:
  assumes cc: "consistent_comparator cmp" and d: "distinct xs"
    and strict: "\<And>a b. a \<in> set xs \<Longrightarrow> b \<in> set xs \<Longrightarrow> cmp a b = 0 \<Longrightarrow> a = b"
  shows "js_sort (\<lambda>a b. - cmp a b) xs = rev (js_sort cmp xs)"
proof -
  let ?ys = "js_sort (\<lambda>a b. - cmp a b) xs"
  have "sorted_wrt (\<lambda>a b. - cmp a b \<le> 0) ?ys"
    using sorted_js_sort[OF cc_neg[OF cc]] .
  then have "sorted_wrt (\<lambda>a b. cmp b a \<le> 0) ?ys"
    by (rule sorted_wrt_mono_rel[rotated]) (simp add: cc_flip[OF cc])
  then have "sorted_wrt (\<lambda>a b. cmp a b \<le> 0) (rev ?ys)"
    by (simp add: sorted_wrt_rev)
  then have s: "sorted_wrt (\<lambda>a b. cmp a b \<le> 0) (rev ?ys)"
    by (simp add: sorted_wrt_rev)
  have "rev ?ys = js_sort cmp xs"
  proof (rule js_sort_unique[OF cc d])
    show "\<And>a b. a \<in> set xs \<Longrightarrow> b \<in> set xs \<Longrightarrow> cmp a b = 0 \<Longrightarrow> a = b" by (rule strict)
    show "sorted_wrt (\<lambda>a b. cmp a b \<le> 0) (rev ?ys)" by (rule s)
    show "distinct (rev ?ys)" by (simp add: distinct_js_sort d)
    show "set (rev ?ys) = set xs" by (simp add: set_js_sort)
  qed
  then have "rev (rev ?ys) = rev (js_sort cmp xs)" by (rule arg_cong)
  then show ?thesis by simp
qed

lemma js_sort_rearranged:
  assumes cc: "consistent_comparator cmp" and d: "distinct xs"
    and strict: "\<And>a b. a \<in> set xs \<Longrightarrow> b \<in> set xs \<Longrightarrow> cmp a b = 0 \<Longrightarrow> a = b"
    and sets: "set ys = set xs" and len: "length ys = length xs"
  shows "js_sort cmp ys = js_sort cmp xs"
proof -
  have "card (set ys) = length ys" using sets len d by (simp add: distinct_card)
  then have dy: "distinct ys" by (rule card_distinct)
  show ?thesis
  proof (rule js_sort_unique[OF cc d])
    show "\<And>a b. a \<in> set xs \<Longrightarrow> b \<in> set xs \<Longrightarrow> cmp a b = 0 \<Longrightarrow> a = b" by (rule strict)
    show "sorted_wrt (\<lambda>a b. cmp a b \<le> 0) (js_sort cmp ys)" by (rule sorted_js_sort[OF cc])
    show "distinct (js_sort cmp ys)" by (simp add: distinct_js_sort dy)
    show "set (js_sort cmp ys) = set xs" by (simp add: set_js_sort sets)
  qed
qed

lemma cc_lex:
  assumes p: "consistent_comparator p" and q: "consistent_comparator q"
  shows "consistent_comparator (\<lambda>a b. if p a b \<noteq> 0 then p a b else q a b)"
proof -
  let ?L = "\<lambda>a b. if p a b \<noteq> 0 then p a b else q a b"
  have "sgn (?L b a) = - sgn (?L a b)" for a b
    using cc_sgn[OF p, of b a] cc_sgn[OF q, of b a] cc_flip0[OF p, of b a] by auto
  moreover have "?L a c \<le> 0" if h: "?L a b \<le> 0 \<and> ?L b c \<le> 0" for a b c
  proof -
    from h have ab: "p a b \<le> 0" and bc: "p b c \<le> 0" by (auto split: if_splits)
    then have ac: "p a c \<le> 0" using cc_trans[OF p] by blast
    show ?thesis
    proof (cases "p a c = 0")
      case False
      with ac show ?thesis by simp
    next
      case True
      then have ca: "p c a \<le> 0" using cc_flip0[OF p, of c a] by simp
      have "p b a \<le> 0" using cc_trans[OF p bc ca] .
      with ab have ab0: "p a b = 0" using cc_zero[OF p] by blast
      have "p c b \<le> 0" using cc_trans[OF p ca ab] .
      with bc have bc0: "p b c = 0" using cc_zero[OF p] by blast
      from h ab0 bc0 have "q a b \<le> 0" "q b c \<le> 0" by auto
      then have "q a c \<le> 0" using cc_trans[OF q] by blast
      with True show ?thesis by simp
    qed
  qed
  ultimately show ?thesis unfolding consistent_comparator_def by blast
qed

lemma bit_length_pos: "0 < n \<Longrightarrow> bit_length n = Suc (bit_length (n div 2))"
  by (subst bit_length.simps) simp

lemma bit_length_le: "0 < n \<Longrightarrow> 2 ^ (bit_length n - 1) \<le> n"
proof (induction n rule: less_induct)
  case (less n)
  show ?case
  proof (cases "n div 2 = 0")
    case True
    then have "bit_length (n div 2) = 0" by (subst bit_length.simps) simp
    with less.prems show ?thesis by (simp add: bit_length_pos)
  next
    case False
    then have pos: "0 < n div 2" by simp
    have lt: "n div 2 < n" using less.prems by simp
    have ih: "2 ^ (bit_length (n div 2) - 1) \<le> n div 2"
      by (rule less.IH[OF lt pos])
    have "bit_length (n div 2) = Suc (bit_length (n div 2 div 2))"
      by (rule bit_length_pos[OF pos])
    then have "bit_length n - 1 = Suc (bit_length (n div 2) - 1)"
      by (simp add: bit_length_pos[OF less.prems])
    then have "(2::nat) ^ (bit_length n - 1) = 2 * 2 ^ (bit_length (n div 2) - 1)"
      by (simp only: power_Suc)
    also have "\<dots> \<le> 2 * (n div 2)" using ih by simp
    also have "\<dots> \<le> n" by simp
    finally show ?thesis .
  qed
qed

lemma to_double_sgn: "sgn (to_double x) = sgn x"
proof (cases "nat \<bar>x\<bar> < 2 ^ 53")
  case True
  then have "to_double x = x" unfolding to_double_def Let_def by (rule if_P)
  then show ?thesis by simp
next
  case False
  define a where "a = nat \<bar>x\<bar>"
  define ulp :: nat where "ulp = 2 ^ (bit_length a - 53)"
  define q where "q = a div ulp"
  define r where "r = a mod ulp"
  define m where "m = (if 2 * r > ulp \<or> (2 * r = ulp \<and> odd q) then (q + 1) * ulp else q * ulp)"
  have eq: "to_double x = sgn x * int m"
    unfolding to_double_def Let_def m_def r_def q_def ulp_def a_def using False by (rule if_not_P)
  have big: "(2::nat) ^ 53 \<le> a" using False unfolding a_def by (rule leI)
  have "(0::nat) < 2 ^ 53" by (rule zero_less_power) simp
  then have pos: "0 < a" using big by (rule less_le_trans)
  have upos: "0 < ulp" unfolding ulp_def by (rule zero_less_power) simp
  have "ulp \<le> 2 ^ (bit_length a - 1)" unfolding ulp_def by (rule power_increasing) simp_all
  also have "\<dots> \<le> a" by (rule bit_length_le[OF pos])
  finally have "ulp \<le> a" .
  then have "ulp div ulp \<le> a div ulp" by (rule div_le_mono)
  with upos have q: "1 \<le> q" unfolding q_def by simp
  have mpos: "0 < m" unfolding m_def using q upos by simp
  have "sgn (sgn x * int m) = sgn x" using mpos by (simp add: sgn_mult)
  with eq show ?thesis by simp
qed

lemma sgn_le_0_int: "(sgn (y::int) \<le> 0) = (y \<le> 0)"
  by (simp add: sgn_if)

lemma sgn_eq_0_int: "(sgn (y::int) = 0) = (y = 0)"
  by (simp add: sgn_if)

lemma to_double_le_0: "(to_double x \<le> 0) = (x \<le> 0)"
  using sgn_le_0_int[of "to_double x"] sgn_le_0_int[of x] by (simp only: to_double_sgn)

lemma to_double_eq_0: "(to_double x = 0) = (x = 0)"
  using sgn_eq_0_int[of "to_double x"] sgn_eq_0_int[of x] by (simp only: to_double_sgn)

lemma cc_js_sub: "consistent_comparator (\<lambda>a b. js_sub (f a) (f b))"
proof -
  have "sgn (js_sub (f b) (f a)) = - sgn (js_sub (f a) (f b))" for a b
  proof -
    have "sgn (js_sub (f b) (f a)) = sgn (f b - f a)"
      by (simp only: js_sub_def to_double_sgn)
    also have "\<dots> = - sgn (f a - f b)" by (simp add: sgn_if)
    also have "\<dots> = - sgn (js_sub (f a) (f b))"
      by (simp only: js_sub_def to_double_sgn)
    finally show ?thesis .
  qed
  moreover have "js_sub (f a) (f c) \<le> 0"
    if "js_sub (f a) (f b) \<le> 0 \<and> js_sub (f b) (f c) \<le> 0" for a b c
    using that by (simp add: js_sub_def to_double_le_0)
  ultimately show ?thesis unfolding consistent_comparator_def by blast
qed

lemma cc_on: "consistent_comparator cmp \<Longrightarrow> consistent_comparator (\<lambda>a b. cmp (f a) (f b))"
  unfolding consistent_comparator_def by blast

lemma compareFiles_asc:
  "compareFiles collate column OrdA =
     (\<lambda>a b. if (if column = ColS then js_sub (size_bytes a) (size_bytes b)
                 else collate (display_name a) (display_name b)) \<noteq> 0
             then (if column = ColS then js_sub (size_bytes a) (size_bytes b)
                 else collate (display_name a) (display_name b))
             else js_sub (file_id a) (file_id b))"
  by (intro ext) (simp add: compareFiles_def sortByNumber_def sortByName_def Let_def)

lemma compareFiles_desc:
  "compareFiles collate column OrdD = (\<lambda>a b. - compareFiles collate column OrdA a b)"
  by (intro ext) (simp add: compareFiles_def sortByNumber_def sortByName_def Let_def)

lemma cc_compareFiles_asc:
  assumes "consistent_comparator collate"
  shows "consistent_comparator (compareFiles collate column OrdA)"
  unfolding compareFiles_asc
proof (rule cc_lex)
  show "consistent_comparator (\<lambda>a b. if column = ColS then js_sub (size_bytes a) (size_bytes b)
          else collate (display_name a) (display_name b))"
    by (cases "column = ColS") (simp_all add: cc_js_sub cc_on[OF assms])
  show "consistent_comparator (\<lambda>a b. js_sub (file_id a) (file_id b))" by (rule cc_js_sub)
qed

lemma cc_compareFiles:
  "consistent_comparator collate \<Longrightarrow> consistent_comparator (compareFiles collate column order)"
  by (cases order) (simp_all add: cc_compareFiles_asc compareFiles_desc cc_neg)

lemma compareFiles_zero:
  "compareFiles collate column order a b = 0 \<Longrightarrow> file_id a = file_id b"
  by (cases order)
     (auto simp: compareFiles_def sortByNumber_def sortByName_def js_sub_def to_double_eq_0 Let_def
        split: if_splits)

lemma compareContainers_asc:
  "compareContainers collate column OrdA =
     (\<lambda>a b. if (if column = ColS then js_sub (containerSize a) (containerSize b)
                 else collate (container_name a) (container_name b)) \<noteq> 0
             then (if column = ColS then js_sub (containerSize a) (containerSize b)
                 else collate (container_name a) (container_name b))
             else js_sub (c_container_id a) (c_container_id b))"
  by (intro ext) (simp add: compareContainers_def sortByNumber_def sortByName_def Let_def)

lemma compareContainers_desc:
  "compareContainers collate column OrdD = (\<lambda>a b. - compareContainers collate column OrdA a b)"
  by (intro ext) (simp add: compareContainers_def sortByNumber_def sortByName_def Let_def)

lemma cc_compareContainers_asc:
  assumes "consistent_comparator collate"
  shows "consistent_comparator (compareContainers collate column OrdA)"
  unfolding compareContainers_asc
proof (rule cc_lex)
  show "consistent_comparator (\<lambda>a b. if column = ColS then js_sub (containerSize a) (containerSize b)
          else collate (container_name a) (container_name b))"
    by (cases "column = ColS") (simp_all add: cc_js_sub cc_on[OF assms])
  show "consistent_comparator (\<lambda>a b. js_sub (c_container_id a) (c_container_id b))"
    by (rule cc_js_sub)
qed

lemma cc_compareContainers:
  "consistent_comparator collate \<Longrightarrow> consistent_comparator (compareContainers collate column order)"
  by (cases order) (simp_all add: cc_compareContainers_asc compareContainers_desc cc_neg)

lemma compareContainers_zero:
  "compareContainers collate column order a b = 0 \<Longrightarrow> c_container_id a = c_container_id b"
  by (cases order)
     (auto simp: compareContainers_def sortByNumber_def sortByName_def js_sub_def to_double_eq_0
        Let_def split: if_splits)

lemma distinct_ids_eq:
  "distinct (map f xs) \<Longrightarrow> a \<in> set xs \<Longrightarrow> b \<in> set xs \<Longrightarrow> f a = f b \<Longrightarrow> a = b"
  by (meson distinct_map inj_on_def)

text \<open>What sorting a list with pairwise distinct ids gives, for any comparator that is
  consistent and is zero only on entities of equal id.\<close>

lemma sort_by_id_tiebreak:
  assumes cc: "consistent_comparator cmp"
    and z: "\<And>a b. cmp a b = 0 \<Longrightarrow> idf a = idf b"
    and d: "distinct (map idf xs)"
  shows "(\<forall>a\<in>set xs. \<forall>b\<in>set xs. a \<noteq> b \<longrightarrow> cmp a b \<noteq> 0)
     \<and> sorted_wrt (\<lambda>a b. cmp a b < 0) (js_sort cmp xs)
     \<and> (\<forall>ys. set ys = set xs \<and> length ys = length xs \<longrightarrow> js_sort cmp ys = js_sort cmp xs)
     \<and> js_sort (\<lambda>a b. - cmp a b) xs = rev (js_sort cmp xs)"
proof -
  have dx: "distinct xs" using d by (simp add: distinct_map)
  have strict: "a = b" if "a \<in> set xs" "b \<in> set xs" "cmp a b = 0" for a b
    using distinct_ids_eq[OF d that(1,2)] z[OF that(3)] by simp
  have 1: "\<forall>a\<in>set xs. \<forall>b\<in>set xs. a \<noteq> b \<longrightarrow> cmp a b \<noteq> 0"
    using strict by blast
  have 2: "sorted_wrt (\<lambda>a b. cmp a b < 0) (js_sort cmp xs)"
    by (rule sorted_wrt_strict[OF sorted_js_sort[OF cc]])
       (use dx strict in \<open>auto simp: distinct_js_sort set_js_sort\<close>)
  have 3: "\<forall>ys. set ys = set xs \<and> length ys = length xs \<longrightarrow> js_sort cmp ys = js_sort cmp xs"
    using js_sort_rearranged[OF cc dx strict] by blast
  have 4: "js_sort (\<lambda>a b. - cmp a b) xs = rev (js_sort cmp xs)"
    using js_sort_neg_rev[OF cc dx strict] by blast
  from 1 2 3 4 show ?thesis by blast
qed

lemma cc_simple_collate: "consistent_comparator simple_collate"
  unfolding consistent_comparator_def simple_collate_def Let_def
  by (auto simp: sgn_if)

lemma js_slice_all: "length xs \<le> n \<Longrightarrow> js_slice 0 (int n) xs = xs"
  by (simp add: js_slice_0_nat)

lemma files_sort_facts:
  assumes "consistent_comparator collate" "distinct (map file_id fs)"
  shows "(\<forall>a\<in>set fs. \<forall>b\<in>set fs. a \<noteq> b \<longrightarrow> compareFiles collate column order a b \<noteq> 0)
     \<and> sorted_wrt (\<lambda>a b. compareFiles collate column order a b < 0)
         (js_sort (compareFiles collate column order) fs)
     \<and> (\<forall>ys. set ys = set fs \<and> length ys = length fs \<longrightarrow>
           js_sort (compareFiles collate column order) ys
             = js_sort (compareFiles collate column order) fs)
     \<and> js_sort (\<lambda>a b. - compareFiles collate column order a b) fs
         = rev (js_sort (compareFiles collate column order) fs)"
proof -
  have z: "\<And>a b. compareFiles collate column order a b = 0 \<Longrightarrow> file_id a = file_id b"
    by (rule compareFiles_zero)
  show ?thesis
    by (rule sort_by_id_tiebreak[where cmp = "compareFiles collate column order" and idf = file_id,
          OF cc_compareFiles[OF assms(1)] z assms(2)])
qed

lemma containers_sort_facts:
  assumes "consistent_comparator collate" "distinct (map c_container_id cs)"
  shows "(\<forall>a\<in>set cs. \<forall>b\<in>set cs. a \<noteq> b \<longrightarrow> compareContainers collate column order a b \<noteq> 0)
     \<and> sorted_wrt (\<lambda>a b. compareContainers collate column order a b < 0)
         (js_sort (compareContainers collate column order) cs)
     \<and> (\<forall>ys. set ys = set cs \<and> length ys = length cs \<longrightarrow>
           js_sort (compareContainers collate column order) ys
             = js_sort (compareContainers collate column order) cs)
     \<and> js_sort (\<lambda>a b. - compareContainers collate column order a b) cs
         = rev (js_sort (compareContainers collate column order) cs)"
proof -
  have z: "\<And>a b. compareContainers collate column order a b = 0
             \<Longrightarrow> c_container_id a = c_container_id b"
    by (rule compareContainers_zero)
  show ?thesis
    by (rule sort_by_id_tiebreak[where cmp = "compareContainers collate column order"
          and idf = c_container_id, OF cc_compareContainers[OF assms(1)] z assms(2)])
qed

lemma files_sort_desc:
  assumes "consistent_comparator collate" "distinct (map file_id fs)"
  shows "js_sort (compareFiles collate column OrdD) fs
           = rev (js_sort (compareFiles collate column OrdA) fs)"
  using files_sort_facts[OF assms, of column OrdA, THEN conjunct2, THEN conjunct2, THEN conjunct2]
  by (simp add: compareFiles_desc)

lemma containers_sort_desc:
  assumes "consistent_comparator collate" "distinct (map c_container_id cs)"
  shows "js_sort (compareContainers collate column OrdD) cs
           = rev (js_sort (compareContainers collate column OrdA) cs)"
  using containers_sort_facts[OF assms, of column OrdA, THEN conjunct2, THEN conjunct2,
      THEN conjunct2]
  by (simp add: compareContainers_desc)

lemma rearranged_filter:
  assumes "distinct xs" "set ys = set xs" "length ys = length xs"
  shows "set (filter p ys) = set (filter p xs) \<and> length (filter p ys) = length (filter p xs)"
proof -
  have "card (set ys) = length ys" using assms by (simp add: distinct_card)
  then have dy: "distinct ys" by (rule card_distinct)
  have s: "set (filter p ys) = set (filter p xs)" using assms(2) by simp
  have cy: "card (set (filter p ys)) = length (filter p ys)"
    by (rule distinct_card) (simp add: dy)
  have cx: "card (set (filter p xs)) = length (filter p xs)"
    by (rule distinct_card) (simp add: assms(1))
  have "length (filter p ys) = length (filter p xs)"
    using cy cx by (simp only: s)
  with s show ?thesis by (rule conjI)
qed

lemma filterAndSortFiles_take:
  "shown_files (filterAndSortFiles collate fs compiled limit column order)
     = take limit (js_sort (compareFiles collate column order)
         (filter (\<lambda>file. matchAll compiled \<or> regex compiled (full_name file)) fs))"
  by (simp add: filterAndSortFiles_def Let_def js_slice_0_nat)

lemma filterAndSortContainers_take:
  "containers (filterAndSortContainers collate cs compiled limit column order)
     = take limit (js_sort (compareContainers collate column order)
         (filter (containerMatches compiled) cs))"
  by (simp add: filterAndSortContainers_def Let_def js_slice_0_nat)

lemma filterAndSortFiles_sorted:
  assumes "consistent_comparator collate" "distinct (map file_id fs)"
  shows "sorted_wrt (\<lambda>a b. compareFiles collate column order a b < 0)
           (shown_files (filterAndSortFiles collate fs compiled limit column order))"
proof -
  let ?m = "filter (\<lambda>file. matchAll compiled \<or> regex compiled (full_name file)) fs"
  have dm: "distinct (map file_id ?m)" using assms(2) by (rule distinct_map_filter)
  have "sorted_wrt (\<lambda>a b. compareFiles collate column order a b < 0)
          (js_sort (compareFiles collate column order) ?m)"
    by (rule files_sort_facts[OF assms(1) dm, THEN conjunct2, THEN conjunct1])
  then show ?thesis unfolding filterAndSortFiles_take by (rule sorted_wrt_take)
qed

lemma filterAndSortContainers_sorted:
  assumes "consistent_comparator collate" "distinct (map c_container_id cs)"
  shows "sorted_wrt (\<lambda>a b. compareContainers collate column order a b < 0)
           (containers (filterAndSortContainers collate cs compiled limit column order))"
proof -
  let ?m = "filter (containerMatches compiled) cs"
  have dm: "distinct (map c_container_id ?m)" using assms(2) by (rule distinct_map_filter)
  have "sorted_wrt (\<lambda>a b. compareContainers collate column order a b < 0)
          (js_sort (compareContainers collate column order) ?m)"
    by (rule containers_sort_facts[OF assms(1) dm, THEN conjunct2, THEN conjunct1])
  then show ?thesis unfolding filterAndSortContainers_take by (rule sorted_wrt_take)
qed

lemma filterAndSortFiles_set:
  "length fs \<le> limit \<Longrightarrow>
   set (shown_files (filterAndSortFiles collate fs compiled limit column order))
     = {f \<in> set fs. matchAll compiled \<or> regex compiled (full_name f)}"
proof -
  assume l: "length fs \<le> limit"
  let ?m = "filter (\<lambda>file. matchAll compiled \<or> regex compiled (full_name file)) fs"
  have "length (js_sort (compareFiles collate column order) ?m) \<le> limit"
    using order_trans[OF length_filter_le l] by (simp add: length_js_sort)
  then show ?thesis unfolding filterAndSortFiles_take by (simp add: set_js_sort)
qed

lemma filterAndSortContainers_set:
  "length cs \<le> limit \<Longrightarrow>
   set (containers (filterAndSortContainers collate cs compiled limit column order))
     = {c \<in> set cs. containerMatches compiled c}"
proof -
  assume l: "length cs \<le> limit"
  let ?m = "filter (containerMatches compiled) cs"
  have "length (js_sort (compareContainers collate column order) ?m) \<le> limit"
    using order_trans[OF length_filter_le l] by (simp add: length_js_sort)
  then show ?thesis unfolding filterAndSortContainers_take by (simp add: set_js_sort)
qed

lemma filterAndSortFiles_rearranged:
  assumes "consistent_comparator collate" "distinct (map file_id fs)"
    and "set ys = set fs" "length ys = length fs"
  shows "filterAndSortFiles collate ys compiled limit column order
           = filterAndSortFiles collate fs compiled limit column order"
proof -
  let ?p = "\<lambda>file. matchAll compiled \<or> regex compiled (full_name file)"
  have dx: "distinct fs" using assms(2) by (simp add: distinct_map)
  have dm: "distinct (map file_id (filter ?p fs))" using assms(2) by (rule distinct_map_filter)
  note r = rearranged_filter[OF dx assms(3,4), of ?p]
  have "js_sort (compareFiles collate column order) (filter ?p ys)
          = js_sort (compareFiles collate column order) (filter ?p fs)"
    using files_sort_facts[OF assms(1) dm, of column order, THEN conjunct2, THEN conjunct2,
        THEN conjunct1, THEN spec, of "filter ?p ys"] r
    by blast
  then show ?thesis by (simp add: filterAndSortFiles_def Let_def)
qed

lemma filterAndSortContainers_rearranged:
  assumes "consistent_comparator collate" "distinct (map c_container_id cs)"
    and "set ys = set cs" "length ys = length cs"
  shows "filterAndSortContainers collate ys compiled limit column order
           = filterAndSortContainers collate cs compiled limit column order"
proof -
  let ?p = "containerMatches compiled"
  have dx: "distinct cs" using assms(2) by (simp add: distinct_map)
  have dm: "distinct (map c_container_id (filter ?p cs))"
    using assms(2) by (rule distinct_map_filter)
  note r = rearranged_filter[OF dx assms(3,4), of ?p]
  have "js_sort (compareContainers collate column order) (filter ?p ys)
          = js_sort (compareContainers collate column order) (filter ?p cs)"
    using containers_sort_facts[OF assms(1) dm, of column order, THEN conjunct2, THEN conjunct2,
        THEN conjunct1, THEN spec, of "filter ?p ys"] r
    by blast
  then show ?thesis by (simp add: filterAndSortContainers_def Let_def)
qed

text \<open>The same facts for the term variant of the engine.\<close>

lemma filterAndSortFiles_terms_take:
  "shown_files (filterAndSortFiles_terms collate fs compiled limit column order)
     = take limit (js_sort (compareFiles collate column order)
         (filter (fileMatches_terms compiled) fs))"
  by (simp add: filterAndSortFiles_terms_def Let_def js_slice_0_nat)

lemma filterAndSortContainers_terms_take:
  "containers (filterAndSortContainers_terms collate cs compiled limit column order)
     = take limit (js_sort (compareContainers collate column order)
         (filter (containerMatches_terms compiled) cs))"
  by (simp add: filterAndSortContainers_terms_def Let_def js_slice_0_nat)

lemma filterAndSortFiles_terms_sorted:
  assumes "consistent_comparator collate" "distinct (map file_id fs)"
  shows "sorted_wrt (\<lambda>a b. compareFiles collate column order a b < 0)
           (shown_files (filterAndSortFiles_terms collate fs compiled limit column order))"
proof -
  let ?m = "filter (fileMatches_terms compiled) fs"
  have dm: "distinct (map file_id ?m)" using assms(2) by (rule distinct_map_filter)
  have "sorted_wrt (\<lambda>a b. compareFiles collate column order a b < 0)
          (js_sort (compareFiles collate column order) ?m)"
    by (rule files_sort_facts[OF assms(1) dm, THEN conjunct2, THEN conjunct1])
  then show ?thesis unfolding filterAndSortFiles_terms_take by (rule sorted_wrt_take)
qed

lemma filterAndSortContainers_terms_sorted:
  assumes "consistent_comparator collate" "distinct (map c_container_id cs)"
  shows "sorted_wrt (\<lambda>a b. compareContainers collate column order a b < 0)
           (containers (filterAndSortContainers_terms collate cs compiled limit column order))"
proof -
  let ?m = "filter (containerMatches_terms compiled) cs"
  have dm: "distinct (map c_container_id ?m)" using assms(2) by (rule distinct_map_filter)
  have "sorted_wrt (\<lambda>a b. compareContainers collate column order a b < 0)
          (js_sort (compareContainers collate column order) ?m)"
    by (rule containers_sort_facts[OF assms(1) dm, THEN conjunct2, THEN conjunct1])
  then show ?thesis unfolding filterAndSortContainers_terms_take by (rule sorted_wrt_take)
qed

lemma filterAndSortFiles_terms_set:
  "length fs \<le> limit \<Longrightarrow>
   set (shown_files (filterAndSortFiles_terms collate fs compiled limit column order))
     = {f \<in> set fs. fileMatches_terms compiled f}"
proof -
  assume l: "length fs \<le> limit"
  let ?m = "filter (fileMatches_terms compiled) fs"
  have "length (js_sort (compareFiles collate column order) ?m) \<le> limit"
    using order_trans[OF length_filter_le l] by (simp add: length_js_sort)
  then show ?thesis unfolding filterAndSortFiles_terms_take by (simp add: set_js_sort)
qed

lemma filterAndSortContainers_terms_set:
  "length cs \<le> limit \<Longrightarrow>
   set (containers (filterAndSortContainers_terms collate cs compiled limit column order))
     = {c \<in> set cs. containerMatches_terms compiled c}"
proof -
  assume l: "length cs \<le> limit"
  let ?m = "filter (containerMatches_terms compiled) cs"
  have "length (js_sort (compareContainers collate column order) ?m) \<le> limit"
    using order_trans[OF length_filter_le l] by (simp add: length_js_sort)
  then show ?thesis unfolding filterAndSortContainers_terms_take by (simp add: set_js_sort)
qed

lemma filterAndSortFiles_terms_rearranged:
  assumes "consistent_comparator collate" "distinct (map file_id fs)"
    and "set ys = set fs" "length ys = length fs"
  shows "filterAndSortFiles_terms collate ys compiled limit column order
           = filterAndSortFiles_terms collate fs compiled limit column order"
proof -
  let ?p = "fileMatches_terms compiled"
  have dx: "distinct fs" using assms(2) by (simp add: distinct_map)
  have dm: "distinct (map file_id (filter ?p fs))" using assms(2) by (rule distinct_map_filter)
  note r = rearranged_filter[OF dx assms(3,4), of ?p]
  have "js_sort (compareFiles collate column order) (filter ?p ys)
          = js_sort (compareFiles collate column order) (filter ?p fs)"
    using files_sort_facts[OF assms(1) dm, of column order, THEN conjunct2, THEN conjunct2,
        THEN conjunct1, THEN spec, of "filter ?p ys"] r
    by blast
  then show ?thesis by (simp add: filterAndSortFiles_terms_def Let_def)
qed

lemma filterAndSortContainers_terms_rearranged:
  assumes "consistent_comparator collate" "distinct (map c_container_id cs)"
    and "set ys = set cs" "length ys = length cs"
  shows "filterAndSortContainers_terms collate ys compiled limit column order
           = filterAndSortContainers_terms collate cs compiled limit column order"
proof -
  let ?p = "containerMatches_terms compiled"
  have dx: "distinct cs" using assms(2) by (simp add: distinct_map)
  have dm: "distinct (map c_container_id (filter ?p cs))"
    using assms(2) by (rule distinct_map_filter)
  note r = rearranged_filter[OF dx assms(3,4), of ?p]
  have "js_sort (compareContainers collate column order) (filter ?p ys)
          = js_sort (compareContainers collate column order) (filter ?p cs)"
    using containers_sort_facts[OF assms(1) dm, of column order, THEN conjunct2, THEN conjunct2,
        THEN conjunct1, THEN spec, of "filter ?p ys"] r
    by blast
  then show ?thesis by (simp add: filterAndSortContainers_terms_def Let_def)
qed

text \<open>
  The size of a container is a sum of doubles: \<open>2 ^ 53 + 1\<close> is \<open>2 ^ 53\<close>, so the two
  containers tie on the size column and their ids decide.
\<close>

lemma containerSize_rounds:
  "containerSize container_rounded = 2 ^ 53 \<and> containerSize container_exact = 2 ^ 53"
  by (simp add: container_rounded_def container_exact_def containerSize_def js_add_def
      to_double_def bit_length.simps Let_def)

lemma containers_sorted_by_rounded_size:
  "js_sort (compareContainers collate ColS OrdA) [container_exact, container_rounded]
     = [container_rounded, container_exact]"
  using containerSize_rounds
  by (simp add: js_sort_def compareContainers_def sortByNumber_def js_sub_def to_double_def
      Let_def container_rounded_def container_exact_def)

text \<open>
  C9. For every sort column, and for the collator a consistent comparator: on a list of
  entities with pairwise distinct ids the comparator is zero on no two distinct
  entities, so the sorted sequence is strictly increasing under the comparator and is
  the same for every arrangement of the same entities; the comparator of descending
  order is the negation of the comparator of ascending order, id tie-break included,
  and the sequence sorted descending is the reverse of the sequence sorted ascending,
  which is what the engine returns when the limit does not truncate. Of the engine
  itself: the sequence it returns is the first \<open>limit\<close> entities of the sorted
  matches, is strictly increasing under the comparator, holds exactly the matches when
  the limit does not truncate, and is the same for every arrangement of the input; and
  so for the term variant of the engine.
\<close>

theorem sorting_total_and_reversible:
  assumes "consistent_comparator collate"
  shows
    "(distinct (map file_id fs) \<longrightarrow>
        (\<forall>a\<in>set fs. \<forall>b\<in>set fs. a \<noteq> b \<longrightarrow> compareFiles collate column order a b \<noteq> 0)
      \<and> sorted_wrt (\<lambda>a b. compareFiles collate column order a b < 0)
          (js_sort (compareFiles collate column order) fs)
      \<and> (\<forall>ys. set ys = set fs \<and> length ys = length fs \<longrightarrow>
            js_sort (compareFiles collate column order) ys
              = js_sort (compareFiles collate column order) fs)
      \<and> compareFiles collate column OrdD a b = - compareFiles collate column OrdA a b
      \<and> js_sort (compareFiles collate column OrdD) fs
          = rev (js_sort (compareFiles collate column OrdA) fs)
      \<and> (length fs \<le> limit \<longrightarrow>
            shown_files (filterAndSortFiles collate fs compiled limit column OrdD)
              = rev (shown_files (filterAndSortFiles collate fs compiled limit column OrdA)))
      \<and> sorted_wrt (\<lambda>a b. compareFiles collate column order a b < 0)
          (shown_files (filterAndSortFiles collate fs compiled limit column order))
      \<and> shown_files (filterAndSortFiles collate fs compiled limit column order)
          = take limit (js_sort (compareFiles collate column order)
              (filter (\<lambda>file. matchAll compiled \<or> regex compiled (full_name file)) fs))
      \<and> (\<forall>ys. set ys = set fs \<and> length ys = length fs \<longrightarrow>
            filterAndSortFiles collate ys compiled limit column order
              = filterAndSortFiles collate fs compiled limit column order)
      \<and> (length fs \<le> limit \<longrightarrow>
            set (shown_files (filterAndSortFiles collate fs compiled limit column order))
              = {f \<in> set fs. matchAll compiled \<or> regex compiled (full_name f)})
      \<and> sorted_wrt (\<lambda>a b. compareFiles collate column order a b < 0)
          (shown_files (filterAndSortFiles_terms collate fs term_filter limit column order))
      \<and> shown_files (filterAndSortFiles_terms collate fs term_filter limit column order)
          = take limit (js_sort (compareFiles collate column order)
              (filter (fileMatches_terms term_filter) fs))
      \<and> (\<forall>ys. set ys = set fs \<and> length ys = length fs \<longrightarrow>
            filterAndSortFiles_terms collate ys term_filter limit column order
              = filterAndSortFiles_terms collate fs term_filter limit column order)
      \<and> (length fs \<le> limit \<longrightarrow>
            shown_files (filterAndSortFiles_terms collate fs term_filter limit column OrdD)
              = rev (shown_files (filterAndSortFiles_terms collate fs term_filter limit column OrdA))))
   \<and> (distinct (map c_container_id cs) \<longrightarrow>
        (\<forall>a\<in>set cs. \<forall>b\<in>set cs. a \<noteq> b \<longrightarrow> compareContainers collate column order a b \<noteq> 0)
      \<and> sorted_wrt (\<lambda>a b. compareContainers collate column order a b < 0)
          (js_sort (compareContainers collate column order) cs)
      \<and> (\<forall>ys. set ys = set cs \<and> length ys = length cs \<longrightarrow>
            js_sort (compareContainers collate column order) ys
              = js_sort (compareContainers collate column order) cs)
      \<and> compareContainers collate column OrdD c d = - compareContainers collate column OrdA c d
      \<and> js_sort (compareContainers collate column OrdD) cs
          = rev (js_sort (compareContainers collate column OrdA) cs)
      \<and> (length cs \<le> limit \<longrightarrow>
            containers (filterAndSortContainers collate cs compiled limit column OrdD)
              = rev (containers (filterAndSortContainers collate cs compiled limit column OrdA)))
      \<and> sorted_wrt (\<lambda>a b. compareContainers collate column order a b < 0)
          (containers (filterAndSortContainers collate cs compiled limit column order))
      \<and> containers (filterAndSortContainers collate cs compiled limit column order)
          = take limit (js_sort (compareContainers collate column order)
              (filter (containerMatches compiled) cs))
      \<and> (\<forall>ys. set ys = set cs \<and> length ys = length cs \<longrightarrow>
            filterAndSortContainers collate ys compiled limit column order
              = filterAndSortContainers collate cs compiled limit column order)
      \<and> (length cs \<le> limit \<longrightarrow>
            set (containers (filterAndSortContainers collate cs compiled limit column order))
              = {c \<in> set cs. containerMatches compiled c})
      \<and> sorted_wrt (\<lambda>a b. compareContainers collate column order a b < 0)
          (containers (filterAndSortContainers_terms collate cs term_filter limit column order))
      \<and> containers (filterAndSortContainers_terms collate cs term_filter limit column order)
          = take limit (js_sort (compareContainers collate column order)
              (filter (containerMatches_terms term_filter) cs))
      \<and> (\<forall>ys. set ys = set cs \<and> length ys = length cs \<longrightarrow>
            filterAndSortContainers_terms collate ys term_filter limit column order
              = filterAndSortContainers_terms collate cs term_filter limit column order)
      \<and> (length cs \<le> limit \<longrightarrow>
            containers (filterAndSortContainers_terms collate cs term_filter limit column OrdD)
              = rev (containers
                  (filterAndSortContainers_terms collate cs term_filter limit column OrdA))))"
proof (intro conjI impI)
  assume d: "distinct (map file_id fs)"
  note f = files_sort_facts[OF assms d]
  show "\<forall>a\<in>set fs. \<forall>b\<in>set fs. a \<noteq> b \<longrightarrow> compareFiles collate column order a b \<noteq> 0"
    by (rule f[THEN conjunct1])
  show "sorted_wrt (\<lambda>a b. compareFiles collate column order a b < 0)
          (js_sort (compareFiles collate column order) fs)"
    by (rule f[THEN conjunct2, THEN conjunct1])
  show "\<forall>ys. set ys = set fs \<and> length ys = length fs \<longrightarrow>
          js_sort (compareFiles collate column order) ys
            = js_sort (compareFiles collate column order) fs"
    by (rule f[THEN conjunct2, THEN conjunct2, THEN conjunct1])
  show "compareFiles collate column OrdD a b = - compareFiles collate column OrdA a b"
    by (simp add: compareFiles_desc)
  show "js_sort (compareFiles collate column OrdD) fs
          = rev (js_sort (compareFiles collate column OrdA) fs)"
    by (rule files_sort_desc[OF assms d])
  show "sorted_wrt (\<lambda>a b. compareFiles collate column order a b < 0)
          (shown_files (filterAndSortFiles collate fs compiled limit column order))"
    by (rule filterAndSortFiles_sorted[OF assms d])
  show "shown_files (filterAndSortFiles collate fs compiled limit column order)
          = take limit (js_sort (compareFiles collate column order)
              (filter (\<lambda>file. matchAll compiled \<or> regex compiled (full_name file)) fs))"
    by (rule filterAndSortFiles_take)
  show "\<forall>ys. set ys = set fs \<and> length ys = length fs \<longrightarrow>
          filterAndSortFiles collate ys compiled limit column order
            = filterAndSortFiles collate fs compiled limit column order"
  proof (intro allI impI)
    fix ys
    assume "set ys = set fs \<and> length ys = length fs"
    then show "filterAndSortFiles collate ys compiled limit column order
            = filterAndSortFiles collate fs compiled limit column order"
      using filterAndSortFiles_rearranged[OF assms d, of ys] by blast
  qed
  show "sorted_wrt (\<lambda>a b. compareFiles collate column order a b < 0)
          (shown_files (filterAndSortFiles_terms collate fs term_filter limit column order))"
    by (rule filterAndSortFiles_terms_sorted[OF assms d])
  show "shown_files (filterAndSortFiles_terms collate fs term_filter limit column order)
          = take limit (js_sort (compareFiles collate column order)
              (filter (fileMatches_terms term_filter) fs))"
    by (rule filterAndSortFiles_terms_take)
  show "\<forall>ys. set ys = set fs \<and> length ys = length fs \<longrightarrow>
          filterAndSortFiles_terms collate ys term_filter limit column order
            = filterAndSortFiles_terms collate fs term_filter limit column order"
  proof (intro allI impI)
    fix ys
    assume "set ys = set fs \<and> length ys = length fs"
    then show "filterAndSortFiles_terms collate ys term_filter limit column order
            = filterAndSortFiles_terms collate fs term_filter limit column order"
      using filterAndSortFiles_terms_rearranged[OF assms d, of ys] by blast
  qed
  assume l: "length fs \<le> limit"
  let ?t = "filter (fileMatches_terms term_filter) fs"
  have dt: "distinct (map file_id ?t)" using d by (rule distinct_map_filter)
  have lt: "length ?t \<le> limit" by (rule order_trans[OF length_filter_le l])
  have "js_sort (compareFiles collate column OrdD) ?t
          = rev (js_sort (compareFiles collate column OrdA) ?t)"
    by (rule files_sort_desc[OF assms dt])
  then show "shown_files (filterAndSortFiles_terms collate fs term_filter limit column OrdD)
          = rev (shown_files (filterAndSortFiles_terms collate fs term_filter limit column OrdA))"
    using lt by (simp add: filterAndSortFiles_terms_def Let_def js_slice_all length_js_sort)
  let ?m = "filter (\<lambda>file. matchAll compiled \<or> regex compiled (full_name file)) fs"
  have dm: "distinct (map file_id ?m)" using d by (rule distinct_map_filter)
  have lm: "length ?m \<le> limit" by (rule order_trans[OF length_filter_le l])
  have "js_sort (compareFiles collate column OrdD) ?m
          = rev (js_sort (compareFiles collate column OrdA) ?m)"
    by (rule files_sort_desc[OF assms dm])
  then show "shown_files (filterAndSortFiles collate fs compiled limit column OrdD)
          = rev (shown_files (filterAndSortFiles collate fs compiled limit column OrdA))"
    using lm by (simp add: filterAndSortFiles_def Let_def js_slice_all length_js_sort)
  show "set (shown_files (filterAndSortFiles collate fs compiled limit column order))
          = {f \<in> set fs. matchAll compiled \<or> regex compiled (full_name f)}"
    by (rule filterAndSortFiles_set[OF l])
next
  assume d: "distinct (map c_container_id cs)"
  note f = containers_sort_facts[OF assms d]
  show "\<forall>a\<in>set cs. \<forall>b\<in>set cs. a \<noteq> b \<longrightarrow> compareContainers collate column order a b \<noteq> 0"
    by (rule f[THEN conjunct1])
  show "sorted_wrt (\<lambda>a b. compareContainers collate column order a b < 0)
          (js_sort (compareContainers collate column order) cs)"
    by (rule f[THEN conjunct2, THEN conjunct1])
  show "\<forall>ys. set ys = set cs \<and> length ys = length cs \<longrightarrow>
          js_sort (compareContainers collate column order) ys
            = js_sort (compareContainers collate column order) cs"
    by (rule f[THEN conjunct2, THEN conjunct2, THEN conjunct1])
  show "compareContainers collate column OrdD c d = - compareContainers collate column OrdA c d"
    by (simp add: compareContainers_desc)
  show "js_sort (compareContainers collate column OrdD) cs
          = rev (js_sort (compareContainers collate column OrdA) cs)"
    by (rule containers_sort_desc[OF assms d])
  show "sorted_wrt (\<lambda>a b. compareContainers collate column order a b < 0)
          (containers (filterAndSortContainers collate cs compiled limit column order))"
    by (rule filterAndSortContainers_sorted[OF assms d])
  show "containers (filterAndSortContainers collate cs compiled limit column order)
          = take limit (js_sort (compareContainers collate column order)
              (filter (containerMatches compiled) cs))"
    by (rule filterAndSortContainers_take)
  show "\<forall>ys. set ys = set cs \<and> length ys = length cs \<longrightarrow>
          filterAndSortContainers collate ys compiled limit column order
            = filterAndSortContainers collate cs compiled limit column order"
  proof (intro allI impI)
    fix ys
    assume "set ys = set cs \<and> length ys = length cs"
    then show "filterAndSortContainers collate ys compiled limit column order
            = filterAndSortContainers collate cs compiled limit column order"
      using filterAndSortContainers_rearranged[OF assms d, of ys] by blast
  qed
  show "sorted_wrt (\<lambda>a b. compareContainers collate column order a b < 0)
          (containers (filterAndSortContainers_terms collate cs term_filter limit column order))"
    by (rule filterAndSortContainers_terms_sorted[OF assms d])
  show "containers (filterAndSortContainers_terms collate cs term_filter limit column order)
          = take limit (js_sort (compareContainers collate column order)
              (filter (containerMatches_terms term_filter) cs))"
    by (rule filterAndSortContainers_terms_take)
  show "\<forall>ys. set ys = set cs \<and> length ys = length cs \<longrightarrow>
          filterAndSortContainers_terms collate ys term_filter limit column order
            = filterAndSortContainers_terms collate cs term_filter limit column order"
  proof (intro allI impI)
    fix ys
    assume "set ys = set cs \<and> length ys = length cs"
    then show "filterAndSortContainers_terms collate ys term_filter limit column order
            = filterAndSortContainers_terms collate cs term_filter limit column order"
      using filterAndSortContainers_terms_rearranged[OF assms d, of ys] by blast
  qed
  assume l: "length cs \<le> limit"
  let ?t = "filter (containerMatches_terms term_filter) cs"
  have dt: "distinct (map c_container_id ?t)" using d by (rule distinct_map_filter)
  have lt: "length ?t \<le> limit" by (rule order_trans[OF length_filter_le l])
  have "js_sort (compareContainers collate column OrdD) ?t
          = rev (js_sort (compareContainers collate column OrdA) ?t)"
    by (rule containers_sort_desc[OF assms dt])
  then show "containers (filterAndSortContainers_terms collate cs term_filter limit column OrdD)
          = rev (containers
              (filterAndSortContainers_terms collate cs term_filter limit column OrdA))"
    using lt by (simp add: filterAndSortContainers_terms_def Let_def js_slice_all length_js_sort)
  let ?m = "filter (containerMatches compiled) cs"
  have dm: "distinct (map c_container_id ?m)" using d by (rule distinct_map_filter)
  have lm: "length ?m \<le> limit" by (rule order_trans[OF length_filter_le l])
  have "js_sort (compareContainers collate column OrdD) ?m
          = rev (js_sort (compareContainers collate column OrdA) ?m)"
    by (rule containers_sort_desc[OF assms dm])
  then show "containers (filterAndSortContainers collate cs compiled limit column OrdD)
          = rev (containers (filterAndSortContainers collate cs compiled limit column OrdA))"
    using lm by (simp add: filterAndSortContainers_def Let_def js_slice_all length_js_sort)
  show "set (containers (filterAndSortContainers collate cs compiled limit column order))
          = {c \<in> set cs. containerMatches compiled c}"
    by (rule filterAndSortContainers_set[OF l])
qed

theorem sorting_total_and_reversible_witness:
  "consistent_comparator simple_collate
   \<and> distinct (map file_id [file_b, file_a])
   \<and> length [file_b, file_a] \<le> (2000::nat)
   \<and> shown_files (filterAndSortFiles simple_collate [file_b, file_a]
        \<lparr>regex = (\<lambda>s. False), matchAll = True\<rparr> 2000 ColS OrdD)
      = rev (shown_files (filterAndSortFiles simple_collate [file_b, file_a]
        \<lparr>regex = (\<lambda>s. False), matchAll = True\<rparr> 2000 ColS OrdA))
   \<and> sorted_wrt (\<lambda>a b. compareFiles simple_collate ColS OrdA a b < 0)
        (shown_files (filterAndSortFiles simple_collate [file_b, file_a]
           \<lparr>regex = (\<lambda>s. False), matchAll = True\<rparr> 2000 ColS OrdA))
   \<and> set (shown_files (filterAndSortFiles simple_collate [file_b, file_a]
        \<lparr>regex = (\<lambda>s. False), matchAll = True\<rparr> 2000 ColS OrdA))
      = {f \<in> set [file_b, file_a]. matchAll \<lparr>regex = (\<lambda>s. False), matchAll = True\<rparr>
           \<or> regex \<lparr>regex = (\<lambda>s. False), matchAll = True\<rparr> (full_name f)}
   \<and> distinct (map c_container_id [container_beta, container_alpha])
   \<and> js_sort (compareContainers simple_collate ColS OrdD) [container_beta, container_alpha]
      = rev (js_sort (compareContainers simple_collate ColS OrdA) [container_beta, container_alpha])
   \<and> sorted_wrt (\<lambda>a b. compareContainers simple_collate ColS OrdA a b < 0)
        (containers (filterAndSortContainers simple_collate [container_beta, container_alpha]
           \<lparr>regex = (\<lambda>s. False), matchAll = True\<rparr> 2000 ColS OrdA))"
proof -
  have d1: "distinct (map file_id [file_b, file_a])"
    by (simp add: file_a_def file_b_def)
  have d2: "distinct (map c_container_id [container_beta, container_alpha])"
    by (simp add: container_alpha_def container_beta_def)
  have l: "length [file_b, file_a] \<le> (2000::nat)" by simp
  note T = sorting_total_and_reversible [OF cc_simple_collate,
      where fs = "[file_b, file_a]" and column = ColS and limit = 2000 and order = OrdA
        and compiled = "\<lparr>regex = (\<lambda>s. False), matchAll = True\<rparr>"
        and cs = "[container_beta, container_alpha]"]
  note F = T[THEN conjunct1, THEN mp, OF d1]
  note C = T[THEN conjunct2, THEN mp, OF d2]
  note F6 = F[THEN conjunct2, THEN conjunct2, THEN conjunct2, THEN conjunct2, THEN conjunct2]
  note C6 = C[THEN conjunct2, THEN conjunct2, THEN conjunct2, THEN conjunct2, THEN conjunct2]
  have f6: "shown_files (filterAndSortFiles simple_collate [file_b, file_a]
        \<lparr>regex = (\<lambda>s. False), matchAll = True\<rparr> 2000 ColS OrdD)
      = rev (shown_files (filterAndSortFiles simple_collate [file_b, file_a]
        \<lparr>regex = (\<lambda>s. False), matchAll = True\<rparr> 2000 ColS OrdA))"
    by (rule F6[THEN conjunct1, THEN mp, OF l])
  have f7: "sorted_wrt (\<lambda>a b. compareFiles simple_collate ColS OrdA a b < 0)
        (shown_files (filterAndSortFiles simple_collate [file_b, file_a]
           \<lparr>regex = (\<lambda>s. False), matchAll = True\<rparr> 2000 ColS OrdA))"
    by (rule F6[THEN conjunct2, THEN conjunct1])
  have f10: "set (shown_files (filterAndSortFiles simple_collate [file_b, file_a]
        \<lparr>regex = (\<lambda>s. False), matchAll = True\<rparr> 2000 ColS OrdA))
      = {f \<in> set [file_b, file_a]. matchAll \<lparr>regex = (\<lambda>s. False), matchAll = True\<rparr>
           \<or> regex \<lparr>regex = (\<lambda>s. False), matchAll = True\<rparr> (full_name f)}"
    by (rule F6[THEN conjunct2, THEN conjunct2, THEN conjunct2, THEN conjunct2, THEN conjunct1,
          THEN mp, OF l])
  have c5: "js_sort (compareContainers simple_collate ColS OrdD) [container_beta, container_alpha]
      = rev (js_sort (compareContainers simple_collate ColS OrdA) [container_beta, container_alpha])"
    by (rule C[THEN conjunct2, THEN conjunct2, THEN conjunct2, THEN conjunct2, THEN conjunct1])
  have c7: "sorted_wrt (\<lambda>a b. compareContainers simple_collate ColS OrdA a b < 0)
        (containers (filterAndSortContainers simple_collate [container_beta, container_alpha]
           \<lparr>regex = (\<lambda>s. False), matchAll = True\<rparr> 2000 ColS OrdA))"
    by (rule C6[THEN conjunct2, THEN conjunct1])
  show ?thesis by (intro conjI) (rule cc_simple_collate d1 l f6 f7 f10 d2 c5 c7)+
qed

section \<open>Truncation\<close>

text \<open>
  C8. For every entity list, compiled filter, limit, sort column and sort order, the
  number of displayed entities is the minimum of the number of matches and the limit,
  and the number of matches is the number of entities that pass the filter, which does
  not depend on the limit. The limit is a count: the request handler passes the
  query's limit, validated as an integer from 1 to 10000.
\<close>

theorem truncation_invariant:
  "length (shown_files (filterAndSortFiles collate fs compiled limit column order))
     = min (totalMatched (filterAndSortFiles collate fs compiled limit column order)) limit
   \<and> totalMatched (filterAndSortFiles collate fs compiled limit column order)
     = length (filter (\<lambda>file. matchAll compiled \<or> regex compiled (full_name file)) fs)
   \<and> totalMatched (filterAndSortFiles collate fs compiled limit column order)
     = totalMatched (filterAndSortFiles collate fs compiled limit' column order)
   \<and> length (containers (filterAndSortContainers collate cs compiled limit column order))
     = min (c_totalMatched (filterAndSortContainers collate cs compiled limit column order)) limit
   \<and> c_totalMatched (filterAndSortContainers collate cs compiled limit column order)
     = length (filter (containerMatches compiled) cs)
   \<and> c_totalMatched (filterAndSortContainers collate cs compiled limit column order)
     = c_totalMatched (filterAndSortContainers collate cs compiled limit' column order)"
  by (simp add: filterAndSortFiles_def filterAndSortContainers_def Let_def
      js_slice_0_nat length_js_sort)

section \<open>Facts about maps\<close>

lemma js_map_get_set:
  "js_map_get (js_map_set k v m) k' = (if k' = k then Some v else js_map_get m k')"
  unfolding js_map_get_def by (induction m) auto

lemma keys_js_map_set: "fst ` set (js_map_set k v m) = insert k (fst ` set m)"
  by (induction m) auto

lemma wf_js_map_set: "wf_map m \<Longrightarrow> wf_map (js_map_set k v m)"
  unfolding wf_map_def
proof (induction m)
  case Nil
  then show ?case by simp
next
  case (Cons e m)
  then show ?case using keys_js_map_set[of k v m] by (auto simp: image_iff)
qed

lemma length_js_map_set:
  "length (js_map_set k v m) = (if k \<in> fst ` set m then length m else Suc (length m))"
  by (induction m) auto

lemma wf_filter: "wf_map m \<Longrightarrow> wf_map (filter P m)"
  unfolding wf_map_def by (simp add: distinct_map_filter)

text \<open>The pruning loops: deleting, from \<open>acc\<close>, the keys of the visited entries that
  satisfy \<open>P\<close>.\<close>

lemma delete_loop_filter:
  "foldl (\<lambda>acc e. if P e then js_map_delete (fst e) acc else acc) acc es
     = filter (\<lambda>e. fst e \<notin> fst ` {x \<in> set es. P x}) acc"
proof (induction es arbitrary: acc)
  case Nil
  then show ?case by simp
next
  case (Cons x es)
  show ?case
  proof (cases "P x")
    case True
    have "filter (\<lambda>e. fst e \<notin> fst ` {y \<in> set es. P y}) (js_map_delete (fst x) acc)
            = filter (\<lambda>e. fst e \<notin> fst ` {y \<in> set (x # es). P y}) acc"
      unfolding js_map_delete_def using True
      by (auto intro!: filter_cong)
    with True Cons.IH[of "js_map_delete (fst x) acc"] show ?thesis by simp
  next
    case False
    have "{y \<in> set (x # es). P y} = {y \<in> set es. P y}" using False by auto
    with False Cons.IH[of acc] show ?thesis by simp
  qed
qed

lemma delete_loop_self:
  assumes "wf_map m"
  shows "foldl (\<lambda>acc e. if P e then js_map_delete (fst e) acc else acc) m m
           = filter (\<lambda>e. \<not> P e) m"
proof -
  have "fst e \<notin> fst ` {x \<in> set m. P x} \<longleftrightarrow> \<not> P e" if "e \<in> set m" for e
  proof
    assume "fst e \<notin> fst ` {x \<in> set m. P x}"
    with that show "\<not> P e" by auto
  next
    assume n: "\<not> P e"
    show "fst e \<notin> fst ` {x \<in> set m. P x}"
    proof
      assume "fst e \<in> fst ` {x \<in> set m. P x}"
      then obtain x where x: "x \<in> set m" "P x" "fst x = fst e" by auto
      have "inj_on fst (set m)" using assms unfolding wf_map_def by (simp add: distinct_map)
      with x(1,3) that have "x = e" by (auto dest: inj_onD)
      with x(2) n show False by simp
    qed
  qed
  then show ?thesis unfolding delete_loop_filter by (auto intro!: filter_cong)
qed

lemma get_filter_wf:
  assumes "wf_map m"
  shows "js_map_get (filter Q m) k =
           (case js_map_get m k of None \<Rightarrow> None | Some v \<Rightarrow> if Q (k, v) then Some v else None)"
proof (cases "js_map_get m k")
  case None
  then have "k \<notin> fst ` set m" unfolding js_map_get_def by (simp add: map_of_eq_None_iff)
  then have "k \<notin> fst ` set (filter Q m)" by auto
  then have "js_map_get (filter Q m) k = None"
    unfolding js_map_get_def by (simp add: map_of_eq_None_iff)
  with None show ?thesis by simp
next
  case (Some v)
  have d: "distinct (map fst m)" using assms by (simp add: wf_map_def)
  have df: "distinct (map fst (filter Q m))" using d by (rule distinct_map_filter)
  from Some d have mem: "(k, v) \<in> set m" unfolding js_map_get_def by simp
  show ?thesis
  proof (cases "Q (k, v)")
    case True
    with mem have "(k, v) \<in> set (filter Q m)" by simp
    with df have "js_map_get (filter Q m) k = Some v" unfolding js_map_get_def by simp
    with Some True show ?thesis by simp
  next
    case False
    have "k \<notin> fst ` set (filter Q m)"
    proof
      assume "k \<in> fst ` set (filter Q m)"
      then obtain w where w: "(k, w) \<in> set m" "Q (k, w)" by auto
      with d have "js_map_get m k = Some w" unfolding js_map_get_def by simp
      with Some w(2) False show False by simp
    qed
    then have "js_map_get (filter Q m) k = None"
      unfolding js_map_get_def by (simp add: map_of_eq_None_iff)
    with Some False show ?thesis by simp
  qed
qed

section \<open>Rate limiter: one bucket\<close>

lemma pruneCounterMap_eq:
  "wf_map m \<Longrightarrow> pruneCounterMap m now =
     (if length m \<le> RATE_LIMIT_STATE_SOFT_MAX then m
      else filter (\<lambda>e. \<not> now \<ge> resetAt (snd e)) m)"
  unfolding pruneCounterMap_def
  using delete_loop_self[of m "\<lambda>e. now \<ge> resetAt (snd e)"] by simp

lemma wf_pruneCounterMap: "wf_map m \<Longrightarrow> wf_map (pruneCounterMap m now)"
  by (simp add: pruneCounterMap_eq wf_filter)

lemma get_pruneCounterMap:
  assumes "wf_map m"
  shows "js_map_get (pruneCounterMap m now) k = js_map_get m k
         \<or> (js_map_get (pruneCounterMap m now) k = None
             \<and> (\<exists>c. js_map_get m k = Some c \<and> now \<ge> resetAt c))"
  using assms
  by (auto simp: pruneCounterMap_eq get_filter_wf split: option.splits)

lemma consumeRateLimit_fresh:
  assumes "wf_map m"
    and "js_map_get m bucket = None \<or> (\<exists>c. js_map_get m bucket = Some c \<and> now \<ge> resetAt c)"
  shows "consumeRateLimit m bucket maxRequests now =
           (False, js_map_set bucket \<lparr>count = 1, resetAt = now + RATE_LIMIT_WINDOW_MS\<rparr>
                     (pruneCounterMap m now))"
  using assms(2) get_pruneCounterMap[OF assms(1), of now bucket]
  by (auto simp: consumeRateLimit_def Let_def split: option.splits)

lemma consumeRateLimit_live:
  assumes "wf_map m" "js_map_get m bucket = Some c" "now < resetAt c"
  shows "consumeRateLimit m bucket maxRequests now =
           (count c + 1 > maxRequests,
            js_map_set bucket (c\<lparr>count := count c + 1\<rparr>) (pruneCounterMap m now))"
  using assms(2,3) get_pruneCounterMap[OF assms(1), of now bucket]
  by (auto simp: consumeRateLimit_def Let_def split: option.splits)

lemma upt_0_Suc_map: "map f [0..<Suc n] = f 0 # map (\<lambda>i. f (Suc i)) [0..<n]"
  by (simp add: upt_conv_Cons map_Suc_upt[symmetric] del: upt_Suc)

lemma consumeRateLimit_calls_live:
  assumes "wf_map m" "js_map_get m bucket = Some c" "\<forall>t\<in>set ts. t < resetAt c"
  shows "fst (consumeRateLimit_calls m bucket L ts)
           = map (\<lambda>i. L < count c + int i + 1) [0..<length ts]"
  using assms
proof (induction ts arbitrary: m c)
  case Nil
  then show ?case by simp
next
  case (Cons now later)
  let ?c' = "c\<lparr>count := count c + 1\<rparr>"
  let ?m' = "js_map_set bucket ?c' (pruneCounterMap m now)"
  have now: "now < resetAt c" using Cons.prems(3) by simp
  have step: "consumeRateLimit m bucket L now = (count c + 1 > L, ?m')"
    by (rule consumeRateLimit_live[OF Cons.prems(1,2) now])
  have wf': "wf_map ?m'" using Cons.prems(1) by (simp add: wf_js_map_set wf_pruneCounterMap)
  have get': "js_map_get ?m' bucket = Some ?c'" by (simp add: js_map_get_set)
  have later: "\<forall>t\<in>set later. t < resetAt ?c'" using Cons.prems(3) by simp
  have "fst (consumeRateLimit_calls ?m' bucket L later)
          = map (\<lambda>i. L < count ?c' + int i + 1) [0..<length later]"
    by (rule Cons.IH[OF wf' get' later])
  then have "fst (consumeRateLimit_calls m bucket L (now # later))
          = (L < count c + 1) # map (\<lambda>i. L < count c + 1 + int i + 1) [0..<length later]"
    by (simp add: step Let_def)
  also have "\<dots> = map (\<lambda>i. L < count c + int i + 1) [0..<length (now # later)]"
    by (simp add: upt_0_Suc_map add.commute add.left_commute del: upt_Suc)
  finally show ?case .
qed

text \<open>
  C5. For a bucket with limit \<open>L\<close> of at least one (both limits of the module are 240)
  and the window \<open>RATE_LIMIT_WINDOW_MS\<close>: when the bucket is absent, or is touched at a
  time \<open>t0\<close> at or after its \<open>resetAt\<close>, the call is allowed and leaves the bucket with
  count 1 and \<open>resetAt = t0 + RATE_LIMIT_WINDOW_MS\<close>; and of the calls on the bucket
  from \<open>t0\<close> on, all before \<open>t0 + RATE_LIMIT_WINDOW_MS\<close>, the one with number \<open>n\<close> is
  rejected exactly when \<open>n > L\<close>: the first \<open>L\<close> are allowed and the next is rejected.
\<close>

theorem rate_limit_window:
  assumes "wf_map m" and "1 \<le> L"
    and "js_map_get m bucket = None \<or> (\<exists>c. js_map_get m bucket = Some c \<and> resetAt c \<le> t0)"
    and "\<forall>t\<in>set ts. t < t0 + RATE_LIMIT_WINDOW_MS"
  shows "consumeRateLimit m bucket L t0
           = (False, js_map_set bucket \<lparr>count = 1, resetAt = t0 + RATE_LIMIT_WINDOW_MS\<rparr>
                       (pruneCounterMap m t0))
       \<and> js_map_get (snd (consumeRateLimit m bucket L t0)) bucket
           = Some \<lparr>count = 1, resetAt = t0 + RATE_LIMIT_WINDOW_MS\<rparr>
       \<and> fst (consumeRateLimit_calls m bucket L (t0 # ts))
           = map (\<lambda>i. L < int (Suc i)) [0..<Suc (length ts)]"
proof -
  let ?c = "\<lparr>count = 1, resetAt = t0 + RATE_LIMIT_WINDOW_MS\<rparr>"
  let ?m' = "js_map_set bucket ?c (pruneCounterMap m t0)"
  have step: "consumeRateLimit m bucket L t0 = (False, ?m')"
    by (rule consumeRateLimit_fresh[OF assms(1,3)])
  have wf': "wf_map ?m'" using assms(1) by (simp add: wf_js_map_set wf_pruneCounterMap)
  have get': "js_map_get ?m' bucket = Some ?c" by (simp add: js_map_get_set)
  have later: "\<forall>t\<in>set ts. t < resetAt ?c" using assms(4) by simp
  have "fst (consumeRateLimit_calls ?m' bucket L ts)
          = map (\<lambda>i. L < count ?c + int i + 1) [0..<length ts]"
    by (rule consumeRateLimit_calls_live[OF wf' get' later])
  then have "fst (consumeRateLimit_calls m bucket L (t0 # ts))
          = False # map (\<lambda>i. L < int (Suc (Suc i))) [0..<length ts]"
    by (simp add: step Let_def add.commute)
  also have "\<dots> = map (\<lambda>i. L < int (Suc i)) [0..<Suc (length ts)]"
    using assms(2) by (simp add: upt_0_Suc_map del: upt_Suc)
  finally show ?thesis using step get' by simp
qed

theorem rate_limit_window_witness:
  "wf_map [(''1.2.3.4'', \<lparr>count = 240, resetAt = 1000\<rparr>)]
   \<and> (1::int) \<le> 2
   \<and> js_map_get [(''1.2.3.4'', \<lparr>count = 240, resetAt = 1000\<rparr>)] ''1.2.3.4''
       = Some \<lparr>count = 240, resetAt = 1000\<rparr>
   \<and> resetAt \<lparr>count = 240, resetAt = 1000\<rparr> \<le> 1000
   \<and> list_all (\<lambda>t. t < 1000 + RATE_LIMIT_WINDOW_MS) [1001, 60999]
   \<and> js_map_get (snd (consumeRateLimit [(''1.2.3.4'', \<lparr>count = 240, resetAt = 1000\<rparr>)]
        ''1.2.3.4'' 2 1000)) ''1.2.3.4'' = Some \<lparr>count = 1, resetAt = 61000\<rparr>
   \<and> fst (consumeRateLimit_calls [(''1.2.3.4'', \<lparr>count = 240, resetAt = 1000\<rparr>)]
        ''1.2.3.4'' 2 [1000, 1001, 60999]) = [False, False, True]"
proof -
  let ?m = "[(''1.2.3.4'', \<lparr>count = 240, resetAt = 1000\<rparr>)]"
  have 1: "wf_map ?m" by (simp add: wf_map_def)
  have 2: "(1::int) \<le> 2" by simp
  have g: "js_map_get ?m ''1.2.3.4'' = Some \<lparr>count = 240, resetAt = 1000\<rparr>"
    by (simp add: js_map_get_def)
  have r: "resetAt \<lparr>count = 240, resetAt = 1000\<rparr> \<le> 1000" by simp
  have 3: "js_map_get ?m ''1.2.3.4'' = None
           \<or> (\<exists>c. js_map_get ?m ''1.2.3.4'' = Some c \<and> resetAt c \<le> 1000)"
    using g r by blast
  have 4: "\<forall>t\<in>set [1001, 60999]. t < 1000 + RATE_LIMIT_WINDOW_MS"
    by (simp add: RATE_LIMIT_WINDOW_MS_def)
  note T = rate_limit_window[OF 1 2 3 4]
  have a: "js_map_get (snd (consumeRateLimit ?m ''1.2.3.4'' 2 1000)) ''1.2.3.4''
             = Some \<lparr>count = 1, resetAt = 61000\<rparr>"
    using T[THEN conjunct2, THEN conjunct1] by (simp add: RATE_LIMIT_WINDOW_MS_def)
  have b: "fst (consumeRateLimit_calls ?m ''1.2.3.4'' 2 [1000, 1001, 60999]) = [False, False, True]"
    using T[THEN conjunct2, THEN conjunct2] by (simp add: upt_rec)
  have 5: "list_all (\<lambda>t. t < 1000 + RATE_LIMIT_WINDOW_MS) [1001, 60999]"
    by (simp add: RATE_LIMIT_WINDOW_MS_def)
  show ?thesis by (intro conjI) (rule 1 2 g r 5 a b)+
qed

section \<open>Rate limiter: key churn\<close>

lemma pruneKeyChurnMap_eq:
  "wf_map m \<Longrightarrow> pruneKeyChurnMap m now =
     (if length m \<le> RATE_LIMIT_STATE_SOFT_MAX then m
      else filter (\<lambda>e. \<not> now \<ge> churn_resetAt (snd e)) m)"
  unfolding pruneKeyChurnMap_def
  using delete_loop_self[of m "\<lambda>e. now \<ge> churn_resetAt (snd e)"] by simp

lemma wf_pruneKeyChurnMap: "wf_map m \<Longrightarrow> wf_map (pruneKeyChurnMap m now)"
  by (simp add: pruneKeyChurnMap_eq wf_filter)

lemma get_pruneKeyChurnMap:
  assumes "wf_map m"
  shows "js_map_get (pruneKeyChurnMap m now) k = js_map_get m k
         \<or> (js_map_get (pruneKeyChurnMap m now) k = None
             \<and> (\<exists>c. js_map_get m k = Some c \<and> now \<ge> churn_resetAt c))"
  using assms
  by (auto simp: pruneKeyChurnMap_eq get_filter_wf split: option.splits)

lemma consumeKeyChurnLimit_fresh:
  assumes "wf_map m"
    and "js_map_get m ipBucket = None
         \<or> (\<exists>c. js_map_get m ipBucket = Some c \<and> now \<ge> churn_resetAt c)"
  shows "consumeKeyChurnLimit m ipBucket keyValue now =
           (False, js_map_set ipBucket
                     \<lparr>keys = [keyValue], churn_resetAt = now + RATE_LIMIT_WINDOW_MS\<rparr>
                     (pruneKeyChurnMap m now))"
  using assms(2) get_pruneKeyChurnMap[OF assms(1), of now ipBucket]
  by (auto simp: consumeKeyChurnLimit_def Let_def split: option.splits)

lemma consumeKeyChurnLimit_live:
  assumes "wf_map m" "js_map_get m ipBucket = Some c" "now < churn_resetAt c"
  shows "consumeKeyChurnLimit m ipBucket keyValue now =
           (length (js_set_add keyValue (keys c)) > RATE_LIMIT_MAX_UNIQUE_KEYS_PER_IP,
            js_map_set ipBucket (c\<lparr>keys := js_set_add keyValue (keys c)\<rparr>)
              (pruneKeyChurnMap m now))"
  using assms(2,3) get_pruneKeyChurnMap[OF assms(1), of now ipBucket]
  by (auto simp: consumeKeyChurnLimit_def Let_def split: option.splits)

lemma set_js_set_add: "set (js_set_add k ks) = insert k (set ks)"
  by (auto simp: js_set_add_def)

lemma distinct_js_set_add: "distinct ks \<Longrightarrow> distinct (js_set_add k ks)"
  by (auto simp: js_set_add_def)

lemma length_js_set_add: "distinct ks \<Longrightarrow> length (js_set_add k ks) = card (insert k (set ks))"
  using distinct_card[OF distinct_js_set_add, of ks k] by (simp add: set_js_set_add)

lemma consumeKeyChurnLimit_calls_live:
  assumes "wf_map m" "js_map_get m ipBucket = Some c" "distinct (keys c)"
    and "\<forall>x\<in>set calls. snd x < churn_resetAt c"
  shows "fst (consumeKeyChurnLimit_calls m ipBucket calls)
           = map (\<lambda>i. RATE_LIMIT_MAX_UNIQUE_KEYS_PER_IP
                         < card (set (keys c) \<union> set (map fst (take (Suc i) calls))))
               [0..<length calls]"
  using assms
proof (induction calls arbitrary: m c)
  case Nil
  then show ?case by simp
next
  case (Cons call later)
  let ?c' = "c\<lparr>keys := js_set_add (fst call) (keys c)\<rparr>"
  let ?m' = "js_map_set ipBucket ?c' (pruneKeyChurnMap m (snd call))"
  have now: "snd call < churn_resetAt c" using Cons.prems(4) by simp
  have step: "consumeKeyChurnLimit m ipBucket (fst call) (snd call)
                = (length (js_set_add (fst call) (keys c)) > RATE_LIMIT_MAX_UNIQUE_KEYS_PER_IP, ?m')"
    by (rule consumeKeyChurnLimit_live[OF Cons.prems(1,2) now])
  have wf': "wf_map ?m'" using Cons.prems(1) by (simp add: wf_js_map_set wf_pruneKeyChurnMap)
  have get': "js_map_get ?m' ipBucket = Some ?c'" by (simp add: js_map_get_set)
  have d': "distinct (keys ?c')" using Cons.prems(3) by (simp add: distinct_js_set_add)
  have later: "\<forall>x\<in>set later. snd x < churn_resetAt ?c'" using Cons.prems(4) by simp
  have "fst (consumeKeyChurnLimit_calls ?m' ipBucket later)
          = map (\<lambda>i. RATE_LIMIT_MAX_UNIQUE_KEYS_PER_IP
                        < card (set (keys ?c') \<union> set (map fst (take (Suc i) later))))
              [0..<length later]"
    by (rule Cons.IH[OF wf' get' d' later])
  then have "fst (consumeKeyChurnLimit_calls m ipBucket (call # later))
          = (RATE_LIMIT_MAX_UNIQUE_KEYS_PER_IP < card (insert (fst call) (set (keys c))))
            # map (\<lambda>i. RATE_LIMIT_MAX_UNIQUE_KEYS_PER_IP
                        < card (insert (fst call) (set (keys c)) \<union> set (map fst (take (Suc i) later))))
                [0..<length later]"
    by (simp add: step Let_def length_js_set_add[OF Cons.prems(3)] set_js_set_add)
  also have "\<dots> = map (\<lambda>i. RATE_LIMIT_MAX_UNIQUE_KEYS_PER_IP
                        < card (set (keys c) \<union> set (map fst (take (Suc i) (call # later)))))
                [0..<length (call # later)]"
    by (simp add: upt_0_Suc_map del: upt_Suc)
  finally show ?case .
qed

lemma counters_at_most_set:
  "counters_at_most c m \<Longrightarrow> count v \<le> c \<Longrightarrow> counters_at_most c (js_map_set k v m)"
  unfolding counters_at_most_def by (induction m) auto

lemma counters_at_most_prune:
  assumes "counters_at_most c m"
  shows "counters_at_most c (pruneCounterMap m now)"
proof -
  have "set (pruneCounterMap m now) \<subseteq> set m"
    unfolding pruneCounterMap_def by (auto simp: delete_loop_filter)
  with assms show ?thesis unfolding counters_at_most_def list_all_iff by blast
qed

lemma counters_at_most_get:
  "counters_at_most c m \<Longrightarrow> js_map_get m k = Some v \<Longrightarrow> count v \<le> c"
  unfolding counters_at_most_def list_all_iff js_map_get_def
  using map_of_SomeD[of m k v] by fastforce

lemma counters_at_most_mono:
  "counters_at_most c m \<Longrightarrow> c \<le> c' \<Longrightarrow> counters_at_most c' m"
  unfolding counters_at_most_def list_all_iff by fastforce

lemma consumeRateLimit_bounded:
  assumes b: "counters_at_most c m" and c0: "0 \<le> c" and le: "c + 1 \<le> maxRequests"
  shows "\<not> fst (consumeRateLimit m bucket maxRequests now)"
    and "counters_at_most (c + 1) (snd (consumeRateLimit m bucket maxRequests now))"
proof -
  let ?p = "pruneCounterMap m now"
  have p: "counters_at_most c ?p" by (rule counters_at_most_prune[OF b])
  have p1: "counters_at_most (c + 1) ?p" by (rule counters_at_most_mono[OF p]) simp
  have fresh: "counters_at_most (c + 1)
      (js_map_set bucket \<lparr>count = 1, resetAt = now + RATE_LIMIT_WINDOW_MS\<rparr> ?p)"
    by (rule counters_at_most_set[OF p1]) (use c0 in simp)
  show "\<not> fst (consumeRateLimit m bucket maxRequests now)"
  proof (cases "js_map_get ?p bucket")
    case None
    then show ?thesis by (simp add: consumeRateLimit_def Let_def)
  next
    case (Some cur)
    have "count cur \<le> c" by (rule counters_at_most_get[OF p Some])
    with le have "\<not> maxRequests < count cur + 1" by simp
    with Some show ?thesis by (simp add: consumeRateLimit_def Let_def)
  qed
  show "counters_at_most (c + 1) (snd (consumeRateLimit m bucket maxRequests now))"
  proof (cases "js_map_get ?p bucket")
    case None
    with fresh show ?thesis by (simp add: consumeRateLimit_def Let_def)
  next
    case (Some cur)
    have cur: "count cur \<le> c" by (rule counters_at_most_get[OF p Some])
    have "counters_at_most (c + 1) (js_map_set bucket (cur\<lparr>count := count cur + 1\<rparr>) ?p)"
      by (rule counters_at_most_set[OF p1]) (use cur in simp)
    with Some fresh show ?thesis by (simp add: consumeRateLimit_def Let_def)
  qed
qed

lemma isRateLimited_counters_pass:
  assumes "\<not> fst (consumeRateLimit (ipRateLimitState s)
                    (case ip of None \<Rightarrow> ''unknown'' | Some a \<Rightarrow> if a = [] then ''unknown'' else a)
                    RATE_LIMIT_MAX_REQUESTS_PER_IP now)"
    and "\<not> fst (consumeRateLimit (keyRateLimitState s)
                    ((case ip of None \<Rightarrow> ''unknown'' | Some a \<Rightarrow> if a = [] then ''unknown'' else a)
                       @ ''|'' @ key)
                    RATE_LIMIT_MAX_REQUESTS_PER_IP_KEY now)"
  shows "isRateLimited s ip key now
           = (fst (consumeKeyChurnLimit (keyChurnState s)
                    (case ip of None \<Rightarrow> ''unknown'' | Some a \<Rightarrow> if a = [] then ''unknown'' else a)
                    key now),
              \<lparr>ipRateLimitState = snd (consumeRateLimit (ipRateLimitState s)
                    (case ip of None \<Rightarrow> ''unknown'' | Some a \<Rightarrow> if a = [] then ''unknown'' else a)
                    RATE_LIMIT_MAX_REQUESTS_PER_IP now),
               keyRateLimitState = snd (consumeRateLimit (keyRateLimitState s)
                    ((case ip of None \<Rightarrow> ''unknown'' | Some a \<Rightarrow> if a = [] then ''unknown'' else a)
                       @ ''|'' @ key)
                    RATE_LIMIT_MAX_REQUESTS_PER_IP_KEY now),
               keyChurnState = snd (consumeKeyChurnLimit (keyChurnState s)
                    (case ip of None \<Rightarrow> ''unknown'' | Some a \<Rightarrow> if a = [] then ''unknown'' else a)
                    key now)\<rparr>)"
  using assms by (simp add: isRateLimited_def Let_def)

lemma isRateLimited_calls_churn:
  assumes "counters_at_most c (ipRateLimitState s)"
    and "counters_at_most c (keyRateLimitState s)"
    and "0 \<le> c"
    and "c + int (length calls) \<le> RATE_LIMIT_MAX_REQUESTS_PER_IP"
    and "c + int (length calls) \<le> RATE_LIMIT_MAX_REQUESTS_PER_IP_KEY"
  shows "fst (isRateLimited_calls s (map (\<lambda>x. (ip, fst x, snd x)) calls))
           = fst (consumeKeyChurnLimit_calls (keyChurnState s)
                   (case ip of None \<Rightarrow> ''unknown'' | Some a \<Rightarrow> if a = [] then ''unknown'' else a) calls)
       \<and> keyChurnState (snd (isRateLimited_calls s (map (\<lambda>x. (ip, fst x, snd x)) calls)))
           = snd (consumeKeyChurnLimit_calls (keyChurnState s)
                   (case ip of None \<Rightarrow> ''unknown'' | Some a \<Rightarrow> if a = [] then ''unknown'' else a) calls)"
  using assms
proof (induction calls arbitrary: s c)
  case Nil
  then show ?case by simp
next
  case (Cons call later)
  let ?b = "case ip of None \<Rightarrow> ''unknown'' | Some a \<Rightarrow> if a = [] then ''unknown'' else a"
  let ?r1 = "consumeRateLimit (ipRateLimitState s) ?b RATE_LIMIT_MAX_REQUESTS_PER_IP (snd call)"
  let ?r2 = "consumeRateLimit (keyRateLimitState s) (?b @ ''|'' @ fst call)
               RATE_LIMIT_MAX_REQUESTS_PER_IP_KEY (snd call)"
  let ?r3 = "consumeKeyChurnLimit (keyChurnState s) ?b (fst call) (snd call)"
  let ?s' = "\<lparr>ipRateLimitState = snd ?r1, keyRateLimitState = snd ?r2, keyChurnState = snd ?r3\<rparr>"
  have le1: "c + 1 \<le> RATE_LIMIT_MAX_REQUESTS_PER_IP" using Cons.prems(4) by simp
  have le2: "c + 1 \<le> RATE_LIMIT_MAX_REQUESTS_PER_IP_KEY" using Cons.prems(5) by simp
  note i = consumeRateLimit_bounded[OF Cons.prems(1) Cons.prems(3) le1, of ?b "snd call"]
  note k = consumeRateLimit_bounded[OF Cons.prems(2) Cons.prems(3) le2, of "?b @ ''|'' @ fst call" "snd call"]
  have step: "isRateLimited s ip (fst call) (snd call) = (fst ?r3, ?s')"
    by (rule isRateLimited_counters_pass[OF i(1) k(1)])
  have b1: "counters_at_most (c + 1) (ipRateLimitState ?s')" using i(2) by simp
  have b2: "counters_at_most (c + 1) (keyRateLimitState ?s')" using k(2) by simp
  have c1: "0 \<le> c + 1" using Cons.prems(3) by simp
  have l1: "c + 1 + int (length later) \<le> RATE_LIMIT_MAX_REQUESTS_PER_IP"
    using Cons.prems(4) by simp
  have l2: "c + 1 + int (length later) \<le> RATE_LIMIT_MAX_REQUESTS_PER_IP_KEY"
    using Cons.prems(5) by simp
  note IH = Cons.IH[OF b1 b2 c1 l1 l2]
  have ks: "keyChurnState ?s' = snd ?r3" by simp
  show ?case
    using IH unfolding ks by (simp add: step Let_def)
qed

text \<open>
  C6. For one address, from a call at \<open>t0\<close> that finds its churn entry absent or
  expired, and for the calls that follow before \<open>t0 + RATE_LIMIT_WINDOW_MS\<close>: the churn
  check rejects call number \<open>n\<close> exactly when the calls 1 to \<open>n\<close> used more than
  \<open>RATE_LIMIT_MAX_UNIQUE_KEYS_PER_IP = 3\<close> distinct access keys. So it rejects from the
  call that brings the fourth distinct key on, and never rejects while at most three
  distinct keys were used. The check reads no counter; and whenever the two counter
  checks of an admission call do not report limited, the admission call returns what
  the churn check returns, and leaves each of the three maps as its own check leaves
  it. For the admission calls themselves: when every counter of the two counter maps
  is at most \<open>c\<close> before the first call and \<open>c\<close> plus the number of calls is within both
  request limits, so that no counter reaches its limit, the admission calls of the
  address with these keys at these times are rejected exactly when the calls so far
  used more than three distinct keys, and the churn map they leave is the one the
  churn checks alone leave.
\<close>

theorem key_churn_window:
  assumes "wf_map m"
    and "js_map_get m ipBucket = None
         \<or> (\<exists>c. js_map_get m ipBucket = Some c \<and> churn_resetAt c \<le> t0)"
    and "\<forall>x\<in>set later. snd x < t0 + RATE_LIMIT_WINDOW_MS"
  shows "fst (consumeKeyChurnLimit_calls m ipBucket ((first_key, t0) # later))
           = map (\<lambda>i. RATE_LIMIT_MAX_UNIQUE_KEYS_PER_IP
                         < card (set (map fst (take (Suc i) ((first_key, t0) # later)))))
               [0..<Suc (length later)]
       \<and> (\<not> fst (consumeRateLimit (ipRateLimitState s)
                    (case ip of None \<Rightarrow> ''unknown'' | Some a \<Rightarrow> if a = [] then ''unknown'' else a)
                    RATE_LIMIT_MAX_REQUESTS_PER_IP now)
          \<and> \<not> fst (consumeRateLimit (keyRateLimitState s)
                    ((case ip of None \<Rightarrow> ''unknown'' | Some a \<Rightarrow> if a = [] then ''unknown'' else a)
                       @ ''|'' @ key)
                    RATE_LIMIT_MAX_REQUESTS_PER_IP_KEY now)
          \<longrightarrow> fst (isRateLimited s ip key now)
                = fst (consumeKeyChurnLimit (keyChurnState s)
                    (case ip of None \<Rightarrow> ''unknown'' | Some a \<Rightarrow> if a = [] then ''unknown'' else a)
                    key now))
       \<and> (\<not> fst (consumeRateLimit (ipRateLimitState s)
                    (case ip of None \<Rightarrow> ''unknown'' | Some a \<Rightarrow> if a = [] then ''unknown'' else a)
                    RATE_LIMIT_MAX_REQUESTS_PER_IP now)
          \<and> \<not> fst (consumeRateLimit (keyRateLimitState s)
                    ((case ip of None \<Rightarrow> ''unknown'' | Some a \<Rightarrow> if a = [] then ''unknown'' else a)
                       @ ''|'' @ key)
                    RATE_LIMIT_MAX_REQUESTS_PER_IP_KEY now)
          \<longrightarrow> isRateLimited s ip key now
                = (fst (consumeKeyChurnLimit (keyChurnState s)
                     (case ip of None \<Rightarrow> ''unknown'' | Some a \<Rightarrow> if a = [] then ''unknown'' else a)
                     key now),
                   \<lparr>ipRateLimitState = snd (consumeRateLimit (ipRateLimitState s)
                      (case ip of None \<Rightarrow> ''unknown'' | Some a \<Rightarrow> if a = [] then ''unknown'' else a)
                      RATE_LIMIT_MAX_REQUESTS_PER_IP now),
                    keyRateLimitState = snd (consumeRateLimit (keyRateLimitState s)
                      ((case ip of None \<Rightarrow> ''unknown'' | Some a \<Rightarrow> if a = [] then ''unknown'' else a)
                         @ ''|'' @ key)
                      RATE_LIMIT_MAX_REQUESTS_PER_IP_KEY now),
                    keyChurnState = snd (consumeKeyChurnLimit (keyChurnState s)
                      (case ip of None \<Rightarrow> ''unknown'' | Some a \<Rightarrow> if a = [] then ''unknown'' else a)
                      key now)\<rparr>))
       \<and> (keyChurnState s = m
          \<and> ipBucket = (case ip of None \<Rightarrow> ''unknown'' | Some a \<Rightarrow> if a = [] then ''unknown'' else a)
          \<and> counters_at_most c (ipRateLimitState s)
          \<and> counters_at_most c (keyRateLimitState s)
          \<and> 0 \<le> c
          \<and> c + 1 + int (length later) \<le> RATE_LIMIT_MAX_REQUESTS_PER_IP
          \<and> c + 1 + int (length later) \<le> RATE_LIMIT_MAX_REQUESTS_PER_IP_KEY
          \<longrightarrow> fst (isRateLimited_calls s
                      (map (\<lambda>x. (ip, fst x, snd x)) ((first_key, t0) # later)))
                = map (\<lambda>i. RATE_LIMIT_MAX_UNIQUE_KEYS_PER_IP
                         < card (set (map fst (take (Suc i) ((first_key, t0) # later)))))
                    [0..<Suc (length later)]
              \<and> keyChurnState (snd (isRateLimited_calls s
                      (map (\<lambda>x. (ip, fst x, snd x)) ((first_key, t0) # later))))
                = snd (consumeKeyChurnLimit_calls m ipBucket ((first_key, t0) # later)))"
proof -
  let ?c = "\<lparr>keys = [first_key], churn_resetAt = t0 + RATE_LIMIT_WINDOW_MS\<rparr>"
  let ?m' = "js_map_set ipBucket ?c (pruneKeyChurnMap m t0)"
  let ?b = "(case ip of None \<Rightarrow> ''unknown'' | Some a \<Rightarrow> if a = [] then ''unknown'' else a)"
  let ?calls = "(first_key, t0) # later"
  let ?verdicts = "map (\<lambda>i. RATE_LIMIT_MAX_UNIQUE_KEYS_PER_IP
                         < card (set (map fst (take (Suc i) ?calls))))
                     [0..<Suc (length later)]"
  have step: "consumeKeyChurnLimit m ipBucket first_key t0 = (False, ?m')"
    by (rule consumeKeyChurnLimit_fresh[OF assms(1,2)])
  have wf': "wf_map ?m'" using assms(1) by (simp add: wf_js_map_set wf_pruneKeyChurnMap)
  have get': "js_map_get ?m' ipBucket = Some ?c" by (simp add: js_map_get_set)
  have d': "distinct (keys ?c)" by simp
  have later: "\<forall>x\<in>set later. snd x < churn_resetAt ?c" using assms(3) by simp
  have "fst (consumeKeyChurnLimit_calls ?m' ipBucket later)
          = map (\<lambda>i. RATE_LIMIT_MAX_UNIQUE_KEYS_PER_IP
                        < card (set (keys ?c) \<union> set (map fst (take (Suc i) later))))
              [0..<length later]"
    by (rule consumeKeyChurnLimit_calls_live[OF wf' get' d' later])
  then have "fst (consumeKeyChurnLimit_calls m ipBucket ?calls)
          = False # map (\<lambda>i. RATE_LIMIT_MAX_UNIQUE_KEYS_PER_IP
                        < card (insert first_key (set (map fst (take (Suc i) later)))))
              [0..<length later]"
    by (simp add: step Let_def)
  also have "\<dots> = ?verdicts"
    by (simp add: upt_0_Suc_map RATE_LIMIT_MAX_UNIQUE_KEYS_PER_IP_def del: upt_Suc)
  finally have seq: "fst (consumeKeyChurnLimit_calls m ipBucket ?calls) = ?verdicts" .
  have adm: "\<not> fst (consumeRateLimit (ipRateLimitState s) ?b RATE_LIMIT_MAX_REQUESTS_PER_IP now)
          \<and> \<not> fst (consumeRateLimit (keyRateLimitState s) (?b @ ''|'' @ key)
                    RATE_LIMIT_MAX_REQUESTS_PER_IP_KEY now)
          \<longrightarrow> fst (isRateLimited s ip key now)
                = fst (consumeKeyChurnLimit (keyChurnState s) ?b key now)"
    by (simp add: isRateLimited_def Let_def)
  have st: "\<not> fst (consumeRateLimit (ipRateLimitState s) ?b RATE_LIMIT_MAX_REQUESTS_PER_IP now)
          \<and> \<not> fst (consumeRateLimit (keyRateLimitState s) (?b @ ''|'' @ key)
                    RATE_LIMIT_MAX_REQUESTS_PER_IP_KEY now)
          \<longrightarrow> isRateLimited s ip key now
                = (fst (consumeKeyChurnLimit (keyChurnState s) ?b key now),
                   \<lparr>ipRateLimitState = snd (consumeRateLimit (ipRateLimitState s) ?b
                      RATE_LIMIT_MAX_REQUESTS_PER_IP now),
                    keyRateLimitState = snd (consumeRateLimit (keyRateLimitState s)
                      (?b @ ''|'' @ key) RATE_LIMIT_MAX_REQUESTS_PER_IP_KEY now),
                    keyChurnState = snd (consumeKeyChurnLimit (keyChurnState s) ?b key now)\<rparr>)"
  proof (intro impI)
    assume p: "\<not> fst (consumeRateLimit (ipRateLimitState s) ?b RATE_LIMIT_MAX_REQUESTS_PER_IP now)
          \<and> \<not> fst (consumeRateLimit (keyRateLimitState s) (?b @ ''|'' @ key)
                    RATE_LIMIT_MAX_REQUESTS_PER_IP_KEY now)"
    show "isRateLimited s ip key now
                = (fst (consumeKeyChurnLimit (keyChurnState s) ?b key now),
                   \<lparr>ipRateLimitState = snd (consumeRateLimit (ipRateLimitState s) ?b
                      RATE_LIMIT_MAX_REQUESTS_PER_IP now),
                    keyRateLimitState = snd (consumeRateLimit (keyRateLimitState s)
                      (?b @ ''|'' @ key) RATE_LIMIT_MAX_REQUESTS_PER_IP_KEY now),
                    keyChurnState = snd (consumeKeyChurnLimit (keyChurnState s) ?b key now)\<rparr>)"
      by (rule isRateLimited_counters_pass[OF p[THEN conjunct1] p[THEN conjunct2]])
  qed
  have calls: "keyChurnState s = m
          \<and> ipBucket = ?b
          \<and> counters_at_most c (ipRateLimitState s)
          \<and> counters_at_most c (keyRateLimitState s)
          \<and> 0 \<le> c
          \<and> c + 1 + int (length later) \<le> RATE_LIMIT_MAX_REQUESTS_PER_IP
          \<and> c + 1 + int (length later) \<le> RATE_LIMIT_MAX_REQUESTS_PER_IP_KEY
          \<longrightarrow> fst (isRateLimited_calls s (map (\<lambda>x. (ip, fst x, snd x)) ?calls)) = ?verdicts
              \<and> keyChurnState (snd (isRateLimited_calls s (map (\<lambda>x. (ip, fst x, snd x)) ?calls)))
                = snd (consumeKeyChurnLimit_calls m ipBucket ?calls)"
  proof (intro impI)
    assume h: "keyChurnState s = m
          \<and> ipBucket = ?b
          \<and> counters_at_most c (ipRateLimitState s)
          \<and> counters_at_most c (keyRateLimitState s)
          \<and> 0 \<le> c
          \<and> c + 1 + int (length later) \<le> RATE_LIMIT_MAX_REQUESTS_PER_IP
          \<and> c + 1 + int (length later) \<le> RATE_LIMIT_MAX_REQUESTS_PER_IP_KEY"
    have hm: "keyChurnState s = m" using h by blast
    have hb: "?b = ipBucket" using h by blast
    have h1: "counters_at_most c (ipRateLimitState s)" using h by blast
    have h2: "counters_at_most c (keyRateLimitState s)" using h by blast
    have h3: "0 \<le> c" using h by blast
    have h4: "c + int (length ?calls) \<le> RATE_LIMIT_MAX_REQUESTS_PER_IP"
    proof -
      have "c + 1 + int (length later) \<le> RATE_LIMIT_MAX_REQUESTS_PER_IP" using h by blast
      then show ?thesis by simp
    qed
    have h5: "c + int (length ?calls) \<le> RATE_LIMIT_MAX_REQUESTS_PER_IP_KEY"
    proof -
      have "c + 1 + int (length later) \<le> RATE_LIMIT_MAX_REQUESTS_PER_IP_KEY" using h by blast
      then show ?thesis by simp
    qed
    note e = isRateLimited_calls_churn[OF h1 h2 h3 h4 h5, of ip, unfolded hm hb]
    have e1: "fst (isRateLimited_calls s (map (\<lambda>x. (ip, fst x, snd x)) ?calls)) = ?verdicts"
      by (rule trans[OF e[THEN conjunct1] seq])
    from e1 e[THEN conjunct2]
    show "fst (isRateLimited_calls s (map (\<lambda>x. (ip, fst x, snd x)) ?calls)) = ?verdicts
              \<and> keyChurnState (snd (isRateLimited_calls s (map (\<lambda>x. (ip, fst x, snd x)) ?calls)))
                = snd (consumeKeyChurnLimit_calls m ipBucket ?calls)"
      by (rule conjI)
  qed
  show ?thesis by (intro conjI) (rule seq adm st calls)+
qed

theorem key_churn_window_witness:
  "wf_map ([] :: ChurnEntry js_map)
   \<and> js_map_get ([] :: ChurnEntry js_map) ''1.2.3.4'' = None
   \<and> list_all (\<lambda>x. snd x < 0 + RATE_LIMIT_WINDOW_MS)
        [(''k2'', 5), (''k1'', 6), (''k3'', 7), (''k4'', 59999)]
   \<and> fst (consumeKeyChurnLimit_calls [] ''1.2.3.4''
        [(''k1'', 0), (''k2'', 5), (''k1'', 6), (''k3'', 7), (''k4'', 59999)])
      = [False, False, False, False, True]
   \<and> fst (isRateLimited \<lparr>ipRateLimitState = [], keyRateLimitState = [], keyChurnState = []\<rparr>
        (Some ''1.2.3.4'') ''k1'' 0)
      = fst (consumeKeyChurnLimit [] ''1.2.3.4'' ''k1'' 0)
   \<and> keyChurnState (snd (isRateLimited
        \<lparr>ipRateLimitState = [], keyRateLimitState = [], keyChurnState = []\<rparr>
        (Some ''1.2.3.4'') ''k1'' 0))
      = [(''1.2.3.4'', \<lparr>keys = [''k1''], churn_resetAt = 60000\<rparr>)]
   \<and> counters_at_most 0 []
   \<and> fst (isRateLimited_calls
        \<lparr>ipRateLimitState = [], keyRateLimitState = [], keyChurnState = []\<rparr>
        [(Some ''1.2.3.4'', ''k1'', 0), (Some ''1.2.3.4'', ''k2'', 5), (Some ''1.2.3.4'', ''k1'', 6),
         (Some ''1.2.3.4'', ''k3'', 7), (Some ''1.2.3.4'', ''k4'', 59999)])
      = [False, False, False, False, True]"
proof -
  let ?later = "[(''k2'', 5), (''k1'', 6), (''k3'', 7), (''k4'', 59999 :: int)]"
  let ?s = "\<lparr>ipRateLimitState = [], keyRateLimitState = [], keyChurnState = []\<rparr>"
  have 1: "wf_map ([] :: ChurnEntry js_map)" by (simp add: wf_map_def)
  have g: "js_map_get ([] :: ChurnEntry js_map) ''1.2.3.4'' = None" by (simp add: js_map_get_def)
  have 2: "js_map_get ([] :: ChurnEntry js_map) ''1.2.3.4'' = None
           \<or> (\<exists>c. js_map_get ([] :: ChurnEntry js_map) ''1.2.3.4'' = Some c \<and> churn_resetAt c \<le> 0)"
    using g by blast
  have 3: "\<forall>x\<in>set ?later. snd x < 0 + RATE_LIMIT_WINDOW_MS"
    by (simp add: RATE_LIMIT_WINDOW_MS_def)
  have l3: "list_all (\<lambda>x. snd x < 0 + RATE_LIMIT_WINDOW_MS) ?later"
    by (simp add: RATE_LIMIT_WINDOW_MS_def)
  note T = key_churn_window[OF 1 2 3, where first_key = "''k1''" and s = ?s and ip = "Some ''1.2.3.4''"
      and key = "''k1''" and now = 0 and c = 0]
  have v: "map (\<lambda>i. RATE_LIMIT_MAX_UNIQUE_KEYS_PER_IP
                       < card (set (map fst (take (Suc i) ((''k1'', 0) # ?later)))))
            [0..<Suc (length ?later)]
          = [False, False, False, False, True]"
    by (simp add: upt_rec RATE_LIMIT_MAX_UNIQUE_KEYS_PER_IP_def card_insert_if)
  have a: "fst (consumeKeyChurnLimit_calls [] ''1.2.3.4''
        [(''k1'', 0), (''k2'', 5), (''k1'', 6), (''k3'', 7), (''k4'', 59999)])
      = [False, False, False, False, True]"
    using T[THEN conjunct1] v by (rule trans)
  have i1: "\<not> fst (consumeRateLimit [] ''1.2.3.4'' RATE_LIMIT_MAX_REQUESTS_PER_IP 0)"
    by (simp add: consumeRateLimit_def pruneCounterMap_def js_map_get_def Let_def)
  have i2: "\<not> fst (consumeRateLimit [] (''1.2.3.4'' @ ''|'' @ ''k1'') RATE_LIMIT_MAX_REQUESTS_PER_IP_KEY 0)"
    by (simp add: consumeRateLimit_def pruneCounterMap_def js_map_get_def Let_def)
  have b: "fst (isRateLimited ?s (Some ''1.2.3.4'') ''k1'' 0)
      = fst (consumeKeyChurnLimit [] ''1.2.3.4'' ''k1'' 0)"
    using T[THEN conjunct2, THEN conjunct1] i1 i2 by simp
  have "isRateLimited ?s (Some ''1.2.3.4'') ''k1'' 0
      = (fst (consumeKeyChurnLimit [] ''1.2.3.4'' ''k1'' 0),
         \<lparr>ipRateLimitState = snd (consumeRateLimit [] ''1.2.3.4'' RATE_LIMIT_MAX_REQUESTS_PER_IP 0),
          keyRateLimitState = snd (consumeRateLimit [] (''1.2.3.4'' @ ''|'' @ ''k1'')
                                     RATE_LIMIT_MAX_REQUESTS_PER_IP_KEY 0),
          keyChurnState = snd (consumeKeyChurnLimit [] ''1.2.3.4'' ''k1'' 0)\<rparr>)"
    using T[THEN conjunct2, THEN conjunct2, THEN conjunct1] i1 i2 by simp
  then have "keyChurnState (snd (isRateLimited ?s (Some ''1.2.3.4'') ''k1'' 0))
      = snd (consumeKeyChurnLimit [] ''1.2.3.4'' ''k1'' 0)"
    by simp
  also have "\<dots> = [(''1.2.3.4'', \<lparr>keys = [''k1''], churn_resetAt = 60000\<rparr>)]"
    by (simp add: consumeKeyChurnLimit_def pruneKeyChurnMap_def js_map_get_def Let_def
        RATE_LIMIT_WINDOW_MS_def)
  finally have st: "keyChurnState (snd (isRateLimited ?s (Some ''1.2.3.4'') ''k1'' 0))
      = [(''1.2.3.4'', \<lparr>keys = [''k1''], churn_resetAt = 60000\<rparr>)]" .
  have c0: "counters_at_most 0 []" by (simp add: counters_at_most_def)
  have h: "keyChurnState ?s = []
          \<and> ''1.2.3.4'' = (case Some ''1.2.3.4'' of None \<Rightarrow> ''unknown''
                            | Some a \<Rightarrow> if a = [] then ''unknown'' else a)
          \<and> counters_at_most 0 (ipRateLimitState ?s)
          \<and> counters_at_most 0 (keyRateLimitState ?s)
          \<and> (0::int) \<le> 0
          \<and> 0 + 1 + int (length ?later) \<le> RATE_LIMIT_MAX_REQUESTS_PER_IP
          \<and> 0 + 1 + int (length ?later) \<le> RATE_LIMIT_MAX_REQUESTS_PER_IP_KEY"
    by (simp add: counters_at_most_def RATE_LIMIT_MAX_REQUESTS_PER_IP_def
        RATE_LIMIT_MAX_REQUESTS_PER_IP_KEY_def)
  note T4 = T[THEN conjunct2, THEN conjunct2, THEN conjunct2, THEN mp, OF h, THEN conjunct1]
  have mp: "map (\<lambda>x. (Some ''1.2.3.4'', fst x, snd x)) ((''k1'', 0::int) # ?later)
      = [(Some ''1.2.3.4'', ''k1'', 0), (Some ''1.2.3.4'', ''k2'', 5), (Some ''1.2.3.4'', ''k1'', 6),
         (Some ''1.2.3.4'', ''k3'', 7), (Some ''1.2.3.4'', ''k4'', 59999)]"
    by simp
  have d: "fst (isRateLimited_calls ?s
        [(Some ''1.2.3.4'', ''k1'', 0), (Some ''1.2.3.4'', ''k2'', 5), (Some ''1.2.3.4'', ''k1'', 6),
         (Some ''1.2.3.4'', ''k3'', 7), (Some ''1.2.3.4'', ''k4'', 59999)])
      = [False, False, False, False, True]"
    using T4[unfolded mp] v by (rule trans)
  show ?thesis by (intro conjI) (rule 1 g l3 a b st c0 d)+
qed

section \<open>Admission check\<close>

lemmas rate_limit_defs =
  isRateLimited_def consumeRateLimit_def consumeKeyChurnLimit_def pruneCounterMap_def
  pruneKeyChurnMap_def js_map_get_def RATE_LIMIT_STATE_SOFT_MAX_def
  RATE_LIMIT_MAX_REQUESTS_PER_IP_def RATE_LIMIT_MAX_REQUESTS_PER_IP_KEY_def
  RATE_LIMIT_WINDOW_MS_def RATE_LIMIT_MAX_UNIQUE_KEYS_PER_IP_def js_set_add_def Let_def

lemma k1_first_call:
  "isRateLimited state_empty (Some ''1.2.3.4'') ''k1'' 0 =
     (False,
      \<lparr>ipRateLimitState = [(''1.2.3.4'', \<lparr>count = 1, resetAt = 60000\<rparr>)],
       keyRateLimitState = [(''1.2.3.4|k1'', \<lparr>count = 1, resetAt = 60000\<rparr>)],
       keyChurnState = [(''1.2.3.4'', \<lparr>keys = [''k1''], churn_resetAt = 60000\<rparr>)]\<rparr>)"
  by (simp add: rate_limit_defs state_empty_def)

lemma k1_next_call:
  "c < 240 \<Longrightarrow>
   isRateLimited
     \<lparr>ipRateLimitState = [(''1.2.3.4'', \<lparr>count = c, resetAt = 60000\<rparr>)],
      keyRateLimitState = [(''1.2.3.4|k1'', \<lparr>count = c, resetAt = 60000\<rparr>)],
      keyChurnState = [(''1.2.3.4'', \<lparr>keys = [''k1''], churn_resetAt = 60000\<rparr>)]\<rparr>
     (Some ''1.2.3.4'') ''k1'' 0 =
     (False,
      \<lparr>ipRateLimitState = [(''1.2.3.4'', \<lparr>count = c + 1, resetAt = 60000\<rparr>)],
       keyRateLimitState = [(''1.2.3.4|k1'', \<lparr>count = c + 1, resetAt = 60000\<rparr>)],
       keyChurnState = [(''1.2.3.4'', \<lparr>keys = [''k1''], churn_resetAt = 60000\<rparr>)]\<rparr>)"
  by (simp add: rate_limit_defs)

lemma k1_next_calls:
  "c + int n \<le> 240 \<Longrightarrow>
   isRateLimited_calls
     \<lparr>ipRateLimitState = [(''1.2.3.4'', \<lparr>count = c, resetAt = 60000\<rparr>)],
      keyRateLimitState = [(''1.2.3.4|k1'', \<lparr>count = c, resetAt = 60000\<rparr>)],
      keyChurnState = [(''1.2.3.4'', \<lparr>keys = [''k1''], churn_resetAt = 60000\<rparr>)]\<rparr>
     (replicate n (Some ''1.2.3.4'', ''k1'', 0)) =
     (replicate n False,
      \<lparr>ipRateLimitState = [(''1.2.3.4'', \<lparr>count = c + int n, resetAt = 60000\<rparr>)],
       keyRateLimitState = [(''1.2.3.4|k1'', \<lparr>count = c + int n, resetAt = 60000\<rparr>)],
       keyChurnState = [(''1.2.3.4'', \<lparr>keys = [''k1''], churn_resetAt = 60000\<rparr>)]\<rparr>)"
proof (induction n arbitrary: c)
  case 0
  then show ?case by simp
next
  case (Suc n)
  from Suc.prems have c: "c < 240" and c': "(c + 1) + int n \<le> 240" by simp_all
  show ?case
    using Suc.IH[OF c'] by (simp add: k1_next_call[OF c] Let_def add.assoc)
qed

lemma state_after_240_reached:
  "isRateLimited_calls state_empty (replicate 240 (Some ''1.2.3.4'', ''k1'', 0))
     = (replicate 240 False, state_after_240)"
proof -
  have r: "replicate 240 x = x # replicate 239 x" for x :: 'a
    using replicate_Suc[of 239 x] by simp
  have k: "isRateLimited_calls (snd (isRateLimited state_empty (Some ''1.2.3.4'') ''k1'' 0))
             (replicate 239 (Some ''1.2.3.4'', ''k1'', 0))
           = (replicate 239 False, state_after_240)"
    using k1_next_calls[of 1 239] by (simp add: k1_first_call state_after_240_def)
  show ?thesis
    unfolding r by (simp add: k Let_def) (simp add: k1_first_call)
qed

text \<open>
  C1, as amended. \<open>isRateLimited\<close> returns at the first check that reports limited.
  The per-IP counter is updated on every call; the per-IP-per-key counter is updated
  exactly when the per-IP check does not report limited; the churn key set is updated
  exactly when neither counter check reports limited. The three checks work on three
  separate maps, so the request is rejected exactly when at least one of the three
  checks, each on its own map, reports limited: the verdict is the one of
  \<open>admit_unconditional\<close>.
\<close>

theorem admission_short_circuit:
  "(let ipBucket = (case ip of None \<Rightarrow> ''unknown'' | Some a \<Rightarrow> if a = [] then ''unknown'' else a);
        r1 = consumeRateLimit (ipRateLimitState s) ipBucket RATE_LIMIT_MAX_REQUESTS_PER_IP now;
        r2 = consumeRateLimit (keyRateLimitState s) (ipBucket @ ''|'' @ key)
               RATE_LIMIT_MAX_REQUESTS_PER_IP_KEY now;
        r3 = consumeKeyChurnLimit (keyChurnState s) ipBucket key now;
        r = isRateLimited s ip key now
    in ipRateLimitState (snd r) = snd r1
     \<and> keyRateLimitState (snd r) = (if fst r1 then keyRateLimitState s else snd r2)
     \<and> keyChurnState (snd r) = (if fst r1 \<or> fst r2 then keyChurnState s else snd r3)
     \<and> fst r = (fst r1 \<or> fst r2 \<or> fst r3)
     \<and> fst r = fst (admit_unconditional s ip key now))"
  by (simp add: isRateLimited_def admit_unconditional_def Let_def)

text \<open>
  C1 as stated fails. After 240 admitted calls from one address with the key k1, the
  next call from that address, with the key k2, is rejected by the per-IP check; it
  leaves the per-IP-per-key map and the churn map as they were, where the unconditional
  checks would have added the bucket of k2.
\<close>

theorem admission_counterexample:
  "isRateLimited_calls state_empty (replicate 240 (Some ''1.2.3.4'', ''k1'', 0))
     = (replicate 240 False, state_after_240)
   \<and> fst (isRateLimited state_after_240 (Some ''1.2.3.4'') ''k2'' 1)
   \<and> keyRateLimitState (snd (isRateLimited state_after_240 (Some ''1.2.3.4'') ''k2'' 1))
       = keyRateLimitState state_after_240
   \<and> keyChurnState (snd (isRateLimited state_after_240 (Some ''1.2.3.4'') ''k2'' 1))
       = keyChurnState state_after_240
   \<and> js_map_get (keyRateLimitState
         (snd (admit_unconditional state_after_240 (Some ''1.2.3.4'') ''k2'' 1))) ''1.2.3.4|k2''
       = Some \<lparr>count = 1, resetAt = 60001\<rparr>
   \<and> isRateLimited state_after_240 (Some ''1.2.3.4'') ''k2'' 1
       \<noteq> admit_unconditional state_after_240 (Some ''1.2.3.4'') ''k2'' 1"
proof -
  have "fst (isRateLimited state_after_240 (Some ''1.2.3.4'') ''k2'' 1)
   \<and> keyRateLimitState (snd (isRateLimited state_after_240 (Some ''1.2.3.4'') ''k2'' 1))
       = keyRateLimitState state_after_240
   \<and> keyChurnState (snd (isRateLimited state_after_240 (Some ''1.2.3.4'') ''k2'' 1))
       = keyChurnState state_after_240
   \<and> js_map_get (keyRateLimitState
         (snd (admit_unconditional state_after_240 (Some ''1.2.3.4'') ''k2'' 1))) ''1.2.3.4|k2''
       = Some \<lparr>count = 1, resetAt = 60001\<rparr>
   \<and> isRateLimited state_after_240 (Some ''1.2.3.4'') ''k2'' 1
       \<noteq> admit_unconditional state_after_240 (Some ''1.2.3.4'') ''k2'' 1"
    by (simp add: rate_limit_defs admit_unconditional_def state_after_240_def)
  with state_after_240_reached show ?thesis by (rule conjI)
qed

section \<open>Cache\<close>

lemma js_map_delete_head:
  "wf_map (e # m) \<Longrightarrow> js_map_delete (fst e) (e # m) = m"
  unfolding wf_map_def js_map_delete_def
  by (auto simp: filter_id_conv image_iff)

lemma evict_loop_drop:
  "wf_map m \<Longrightarrow> removed < overflow \<Longrightarrow> evict_loop m removed overflow = drop (overflow - removed) m"
proof (induction m arbitrary: removed)
  case Nil
  then show ?case by simp
next
  case (Cons e m)
  have wf: "wf_map m" using Cons.prems(1) by (simp add: wf_map_def)
  have del: "js_map_delete (fst e) (e # m) = m" by (rule js_map_delete_head[OF Cons.prems(1)])
  show ?case
  proof (cases "removed + 1 \<ge> overflow")
    case True
    with Cons.prems(2) have "overflow - removed = Suc 0" by simp
    with True del show ?thesis by (simp add: Let_def)
  next
    case False
    then have lt: "removed + 1 < overflow" by simp
    have "evict_loop m (removed + 1) overflow = drop (overflow - (removed + 1)) m"
      by (rule Cons.IH[OF wf lt])
    moreover have "overflow - removed = Suc (overflow - (removed + 1))" using lt by simp
    then have "drop (overflow - removed) (e # m) = drop (overflow - (removed + 1)) m"
      by (simp only: drop_Suc_Cons)
    ultimately show ?thesis using False del by (simp add: Let_def)
  qed
qed

lemma trimCache_eq:
  assumes "wf_map m"
  shows "trimCache m now =
     (if length m \<le> CACHE_SOFT_MAX then m
      else (let m1 = filter (\<lambda>e. now < expiresAt (snd e)) m
            in if length m1 \<le> CACHE_SOFT_MAX then m1
               else drop (length m1 - CACHE_SOFT_MAX) m1))"
proof -
  let ?m1 = "filter (\<lambda>e. now < expiresAt (snd e)) m"
  have f: "foldl (\<lambda>acc e. if now \<ge> expiresAt (snd e) then js_map_delete (fst e) acc else acc) m m
             = ?m1"
    using delete_loop_self[OF assms, of "\<lambda>e. now \<ge> expiresAt (snd e)"]
    by (simp add: not_le)
  have wf1: "wf_map ?m1" by (rule wf_filter[OF assms])
  have "evict_loop ?m1 0 (length ?m1 - CACHE_SOFT_MAX) = drop (length ?m1 - CACHE_SOFT_MAX) ?m1"
    if "\<not> length ?m1 \<le> CACHE_SOFT_MAX"
    using evict_loop_drop[OF wf1, of 0 "length ?m1 - CACHE_SOFT_MAX"] that by simp
  then show ?thesis unfolding trimCache_def f by (simp add: Let_def)
qed

lemma length_trimCache: "wf_map m \<Longrightarrow> length (trimCache m now) \<le> CACHE_SOFT_MAX"
  by (simp add: trimCache_eq Let_def)

lemma length_cacheSet:
  "wf_map m \<Longrightarrow> length (cacheSet m key v now_trim now) \<le> CACHE_SOFT_MAX + 1"
  using length_trimCache[of m now_trim]
  by (simp add: cacheSet_def length_js_map_set)

lemma length_consumeRateLimit:
  "wf_map m \<Longrightarrow> length (snd (consumeRateLimit m bucket maxRequests now)) \<le> length m + 1"
proof -
  assume wf: "wf_map m"
  have "length (pruneCounterMap m now) \<le> length m"
    by (simp add: pruneCounterMap_eq[OF wf])
  then show ?thesis
    by (auto simp: consumeRateLimit_def Let_def length_js_map_set split: option.splits)
qed

text \<open>
  C4, as amended. For a cache map: when its size exceeds \<open>CACHE_SOFT_MAX\<close>, \<open>trimCache\<close>
  first deletes every entry whose TTL has expired and then, if the map is still over
  the cap, deletes the oldest entries until the size is the cap; so the size after
  \<open>trimCache\<close> is at most the cap, and after \<open>cacheSet\<close> at most the cap plus the
  inserted entry. For a rate-limit map: when its size exceeds
  \<open>RATE_LIMIT_STATE_SOFT_MAX\<close>, the pruning pass deletes the entries whose window has
  expired and nothing else, so the size after a call is bounded by the size before it
  plus one, not by the cap.
\<close>

theorem soft_cap_pruning:
  assumes "wf_map m" and "wf_map rm" and "wf_map cm"
  shows "trimCache m now =
           (if length m \<le> CACHE_SOFT_MAX then m
            else (let m1 = filter (\<lambda>e. now < expiresAt (snd e)) m
                  in if length m1 \<le> CACHE_SOFT_MAX then m1
                     else drop (length m1 - CACHE_SOFT_MAX) m1))
       \<and> length (trimCache m now) \<le> CACHE_SOFT_MAX
       \<and> length (cacheSet m key v now now') \<le> CACHE_SOFT_MAX + 1
       \<and> pruneCounterMap rm now =
           (if length rm \<le> RATE_LIMIT_STATE_SOFT_MAX then rm
            else filter (\<lambda>e. now < resetAt (snd e)) rm)
       \<and> pruneKeyChurnMap cm now =
           (if length cm \<le> RATE_LIMIT_STATE_SOFT_MAX then cm
            else filter (\<lambda>e. now < churn_resetAt (snd e)) cm)
       \<and> length (snd (consumeRateLimit rm bucket maxRequests now)) \<le> length rm + 1"
  using trimCache_eq[OF assms(1), of now] length_trimCache[OF assms(1), of now]
    length_cacheSet[OF assms(1), of key v now now']
    pruneCounterMap_eq[OF assms(2), of now] pruneKeyChurnMap_eq[OF assms(3), of now]
    length_consumeRateLimit[OF assms(2), of bucket maxRequests now]
  by (simp add: not_le)

lemma wf_map_replicate:
  "wf_map (map (\<lambda>i. (p @ replicate (Suc i) c, v)) [0..<n])"
proof -
  have "inj_on (\<lambda>i. p @ replicate (Suc i) c) (set [0..<n])"
  proof (rule inj_onI)
    fix i j
    assume "p @ replicate (Suc i) c = p @ replicate (Suc j) c"
    then have "length (replicate (Suc i) c) = length (replicate (Suc j) c)" by simp
    then show "i = j" by simp
  qed
  then show ?thesis unfolding wf_map_def by (simp add: distinct_map comp_def)
qed

lemma wf_crowded_counters: "wf_map crowded_counters"
  unfolding crowded_counters_def using wf_map_replicate[of "[]"] by simp

lemma wf_crowded_cache: "wf_map crowded_cache"
  unfolding crowded_cache_def by (rule wf_map_replicate)


lemma js_map_get_None: "k \<notin> fst ` set m \<Longrightarrow> js_map_get m k = None"
  by (simp add: js_map_get_def map_of_eq_None_iff)

text \<open>
  C4 as stated fails for the rate-limit maps. A counter map with 10002 buckets, all
  inside their window, is over the cap of 10000; the pruning pass deletes nothing, and
  the call leaves 10003 buckets.
\<close>

theorem soft_cap_counterexample:
  "wf_map crowded_counters
   \<and> length crowded_counters = 10002
   \<and> pruneCounterMap crowded_counters 1 = crowded_counters
   \<and> length (snd (consumeRateLimit crowded_counters ''b'' RATE_LIMIT_MAX_REQUESTS_PER_IP 1)) = 10003
   \<and> \<not> length (snd (consumeRateLimit crowded_counters ''b'' RATE_LIMIT_MAX_REQUESTS_PER_IP 1))
         \<le> RATE_LIMIT_STATE_SOFT_MAX + 1"
proof -
  have len: "length crowded_counters = 10002" by (simp add: crowded_counters_def)
  have live: "filter (\<lambda>e. \<not> 1 \<ge> resetAt (snd e)) crowded_counters = crowded_counters"
    by (simp add: crowded_counters_def filter_id_conv)
  have prune: "pruneCounterMap crowded_counters 1 = crowded_counters"
    using pruneCounterMap_eq[OF wf_crowded_counters, of 1] live by simp
  have nb: "''b'' \<notin> fst ` set crowded_counters"
    by (auto simp: crowded_counters_def)
  have "consumeRateLimit crowded_counters ''b'' RATE_LIMIT_MAX_REQUESTS_PER_IP 1
          = (False, js_map_set ''b'' \<lparr>count = 1, resetAt = 1 + RATE_LIMIT_WINDOW_MS\<rparr> crowded_counters)"
    using consumeRateLimit_fresh[OF wf_crowded_counters, of "''b''" 1 RATE_LIMIT_MAX_REQUESTS_PER_IP]
      js_map_get_None[OF nb] prune by simp
  then have l: "length (snd (consumeRateLimit crowded_counters ''b'' RATE_LIMIT_MAX_REQUESTS_PER_IP 1))
                  = 10003"
    using nb len by (simp add: length_js_map_set)
  then have n: "\<not> length (snd (consumeRateLimit crowded_counters ''b'' RATE_LIMIT_MAX_REQUESTS_PER_IP 1))
         \<le> RATE_LIMIT_STATE_SOFT_MAX + 1"
    by (simp add: RATE_LIMIT_STATE_SOFT_MAX_def)
  show ?thesis by (intro conjI) (rule wf_crowded_counters len prune l n)+
qed

theorem soft_cap_pruning_witness:
  "wf_map crowded_cache \<and> wf_map crowded_counters \<and> wf_map ([] :: ChurnEntry js_map)
   \<and> length crowded_cache = 2001
   \<and> length (trimCache crowded_cache 1) \<le> CACHE_SOFT_MAX
   \<and> length (cacheSet crowded_cache ''webdl:x'' [] 1 1) \<le> CACHE_SOFT_MAX + 1
   \<and> length (snd (consumeRateLimit crowded_counters ''b'' 240 1)) \<le> length crowded_counters + 1"
proof -
  have e: "wf_map ([] :: ChurnEntry js_map)" by (simp add: wf_map_def)
  have len: "length crowded_cache = 2001" by (simp add: crowded_cache_def)
  note T = soft_cap_pruning[OF wf_crowded_cache wf_crowded_counters e,
      where now = 1 and now' = 1 and key = "''webdl:x''" and v = "[]" and bucket = "''b''"
        and maxRequests = 240]
  show ?thesis
    by (intro conjI)
       (rule wf_crowded_cache wf_crowded_counters e len T[THEN conjunct2, THEN conjunct1]
          T[THEN conjunct2, THEN conjunct2, THEN conjunct1]
          T[THEN conjunct2, THEN conjunct2, THEN conjunct2, THEN conjunct2, THEN conjunct2])+
qed

section \<open>Cache TTL\<close>






















section \<open>Match-all fast path\<close>

lemma compileFilter_terms_matchAll:
  assumes "compileFilter_terms pattern flags = Inr c"
  shows "t_matchAll c =
           ((if js_trim pattern = [] then ''.*'' else js_trim pattern) \<in> {''.+'', ''.*'', ''^.*$''}
            \<or> splitTerms (if js_trim pattern = [] then ''.*'' else js_trim pattern) = Inr [])"
    and "t_matchAll c \<Longrightarrow> terms c = []"
  using assms
  by (auto simp: compileFilter_terms_def Let_def split: if_splits sum.splits)

lemma nameMatchesAnyTerm_Nil: "\<not> nameMatchesAnyTerm name []"
  by (simp add: nameMatchesAnyTerm_def)

text \<open>
  C3, as amended. For every pattern whose compilation sets the match-all flag, the
  fast path makes every entity match, and the general predicate is not consulted. In
  the term variant the flag is set exactly for the three sentinel forms, a blank
  pattern, or a pattern whose split gives no term; the compiled term list is then
  empty, and the suffix-term test on it matches no entity, so the fast path and the
  term test agree on no entity. In the pattern variant the fast path agrees with the
  test of the compiled expression exactly on the entities whose name the expression
  accepts.
\<close>

theorem match_all_fast_path:
  "(compileFilter_terms pattern flags = Inr c \<longrightarrow>
      t_matchAll c =
        ((if js_trim pattern = [] then ''.*'' else js_trim pattern) \<in> {''.+'', ''.*'', ''^.*$''}
         \<or> splitTerms (if js_trim pattern = [] then ''.*'' else js_trim pattern) = Inr [])
      \<and> (t_matchAll c \<longrightarrow>
            terms c = []
          \<and> fileMatches_terms c file
          \<and> \<not> nameMatchesAnyTerm (full_name file) (terms c)
          \<and> containerMatches_terms c container
          \<and> totalMatched (filterAndSortFiles_terms collate fs c limit column order) = length fs
          \<and> c_totalMatched (filterAndSortContainers_terms collate cs c limit column order)
              = length cs))
   \<and> (compileFilter newRegExp pattern flags = Inr r \<and> matchAll r \<longrightarrow>
        (matchAll r \<or> regex r (full_name file))
      \<and> containerMatches r container
      \<and> totalMatched (filterAndSortFiles collate fs r limit column order) = length fs
      \<and> c_totalMatched (filterAndSortContainers collate cs r limit column order) = length cs
      \<and> ((matchAll r \<or> regex r (full_name file)) = regex r (full_name file)
           \<longleftrightarrow> regex r (full_name file)))"
proof (intro conjI impI)
  assume c: "compileFilter_terms pattern flags = Inr c"
  show "t_matchAll c =
        ((if js_trim pattern = [] then ''.*'' else js_trim pattern) \<in> {''.+'', ''.*'', ''^.*$''}
         \<or> splitTerms (if js_trim pattern = [] then ''.*'' else js_trim pattern) = Inr [])"
    by (rule compileFilter_terms_matchAll(1)[OF c])
  assume m: "t_matchAll c"
  show t: "terms c = []" by (rule compileFilter_terms_matchAll(2)[OF c m])
  show "fileMatches_terms c file" using m by (simp add: fileMatches_terms_def)
  show "\<not> nameMatchesAnyTerm (full_name file) (terms c)"
    unfolding t by (rule nameMatchesAnyTerm_Nil)
  show "containerMatches_terms c container" using m by (simp add: containerMatches_terms_def)
  have "fileMatches_terms c = (\<lambda>f. True)" using m by (simp add: fileMatches_terms_def fun_eq_iff)
  then show "totalMatched (filterAndSortFiles_terms collate fs c limit column order) = length fs"
    by (simp add: filterAndSortFiles_terms_def Let_def length_js_sort)
  have "containerMatches_terms c = (\<lambda>f. True)"
    using m by (simp add: containerMatches_terms_def fun_eq_iff)
  then show "c_totalMatched (filterAndSortContainers_terms collate cs c limit column order)
              = length cs"
    by (simp add: filterAndSortContainers_terms_def Let_def length_js_sort)
next
  assume "compileFilter newRegExp pattern flags = Inr r \<and> matchAll r"
  then have m: "matchAll r" by simp
  show "matchAll r \<or> regex r (full_name file)" using m by simp
  show "containerMatches r container" using m by (simp add: containerMatches_def)
  show "totalMatched (filterAndSortFiles collate fs r limit column order) = length fs"
    using m by (simp add: filterAndSortFiles_def Let_def length_js_sort)
  have "containerMatches r = (\<lambda>f. True)" using m by (simp add: containerMatches_def fun_eq_iff)
  then show "c_totalMatched (filterAndSortContainers collate cs r limit column order) = length cs"
    by (simp add: filterAndSortContainers_def Let_def length_js_sort)
  show "((matchAll r \<or> regex r (full_name file)) = regex r (full_name file))
           \<longleftrightarrow> regex r (full_name file)"
    using m by simp
qed

lemma compile_comma: "compileFilter_terms '','' ''i'' = Inr \<lparr>t_matchAll = True, raw = '','', terms = []\<rparr>"
  by (simp add: compileFilter_terms_def splitTerms_def js_trim_def js_isWhiteSpace_def
      is_separator_def MAX_FILTER_LEN_def MAX_FILTER_TERMS_def Let_def)

lemma compile_blank: "compileFilter_terms '' '' ''i'' = Inr \<lparr>t_matchAll = True, raw = ''.*'', terms = []\<rparr>"
  by (simp add: compileFilter_terms_def js_trim_def js_isWhiteSpace_def MAX_FILTER_LEN_def Let_def)

text \<open>
  C3 as stated fails in the term variant. The blank pattern and the pattern of one
  comma compile to the match-all filter with no term: the fast path matches the file
  a.mkv, and the suffix-term test of the compiled filter does not.
\<close>

theorem match_all_counterexample:
  "compileFilter_terms '' '' ''i'' = Inr \<lparr>t_matchAll = True, raw = ''.*'', terms = []\<rparr>
   \<and> compileFilter_terms '','' ''i'' = Inr \<lparr>t_matchAll = True, raw = '','', terms = []\<rparr>
   \<and> fileMatches_terms \<lparr>t_matchAll = True, raw = '','', terms = []\<rparr> file_a
   \<and> \<not> nameMatchesAnyTerm (full_name file_a) (terms \<lparr>t_matchAll = True, raw = '','', terms = []\<rparr>)
   \<and> fileMatches_terms \<lparr>t_matchAll = True, raw = '','', terms = []\<rparr> file_a
       \<noteq> nameMatchesAnyTerm (full_name file_a) (terms \<lparr>t_matchAll = True, raw = '','', terms = []\<rparr>)"
  by (simp add: compile_comma compile_blank fileMatches_terms_def nameMatchesAnyTerm_def)

theorem match_all_fast_path_witness:
  "compileFilter_terms '','' ''i'' = Inr \<lparr>t_matchAll = True, raw = '','', terms = []\<rparr>
   \<and> t_matchAll \<lparr>t_matchAll = True, raw = '','', terms = []\<rparr>
   \<and> totalMatched (filterAndSortFiles_terms simple_collate [file_b, file_a]
         \<lparr>t_matchAll = True, raw = '','', terms = []\<rparr> 2000 ColN OrdA) = length [file_b, file_a]
   \<and> compileFilter (\<lambda>p f. Some (\<lambda>s. s \<noteq> [])) ''.+'' ''i''
       = Inr \<lparr>regex = (\<lambda>s. s \<noteq> []), matchAll = True\<rparr>
   \<and> matchAll \<lparr>regex = (\<lambda>s. s \<noteq> []), matchAll = True\<rparr>
   \<and> totalMatched (filterAndSortFiles simple_collate [file_b, file_a]
         \<lparr>regex = (\<lambda>s. s \<noteq> []), matchAll = True\<rparr> 2000 ColN OrdA) = length [file_b, file_a]"
proof -
  let ?c = "\<lparr>t_matchAll = True, raw = '','', terms = []\<rparr>"
  let ?r = "\<lparr>regex = (\<lambda>s. s \<noteq> []), matchAll = True\<rparr>"
  have m: "t_matchAll ?c" by simp
  have cr: "compileFilter (\<lambda>p f. Some (\<lambda>s. s \<noteq> [])) ''.+'' ''i'' = Inr ?r"
    by (simp add: compileFilter_def js_trim_def js_isWhiteSpace_def MAX_FILTER_LEN_def Let_def
        sanitizeFlags_def ALLOWED_REGEX_FLAGS_def)
  have mr: "matchAll ?r" by simp
  note T = match_all_fast_path[where pattern = "'',''" and flags = "''i''" and c = ?c
      and fs = "[file_b, file_a]" and collate = simple_collate and limit = 2000 and column = ColN
      and order = OrdA]
  note U = match_all_fast_path[where pattern = "''.+''" and flags = "''i''" and r = ?r
      and newRegExp = "\<lambda>p f. Some (\<lambda>s. s \<noteq> [])"
      and fs = "[file_b, file_a]" and collate = simple_collate and limit = 2000 and column = ColN
      and order = OrdA]
  have a: "totalMatched (filterAndSortFiles_terms simple_collate [file_b, file_a] ?c 2000 ColN OrdA)
             = length [file_b, file_a]"
    using T[THEN conjunct1, THEN mp, OF compile_comma, THEN conjunct2, THEN mp, OF m] by blast
  have b: "totalMatched (filterAndSortFiles simple_collate [file_b, file_a] ?r 2000 ColN OrdA)
             = length [file_b, file_a]"
    using U[THEN conjunct2, THEN mp, OF conjI[OF cr mr]] by blast
  show ?thesis by (intro conjI) (rule compile_comma m a cr mr b)+
qed

section \<open>Listing of all sources\<close>

text \<open>
  C2. The claim is that the listing of all sources answers 502 only if every source
  failed. The handler answers 502 exactly when no container was collected and at least
  one source failed, and otherwise 200 with the containers of the fulfilled sources and
  one error line for each rejected source. So with the sources torrents and usenet
  fulfilled with empty listings and the source webdl rejected, the answer is 502
  although two sources succeeded.
\<close>

theorem all_sources_502_with_succeeded_sources:
  "list_all_sources collate [Fulfilled [], Rejected reason, Fulfilled []]
     compiledFilter limit sortC sortO
   = TextResponse 502 ''Upstream provider unavailable''
   \<and> list_all_sources collate [r1, r2, r3] compiledFilter limit sortC sortO
   = (let allContainers =
            (case r1 of Fulfilled v \<Rightarrow> v | Rejected e \<Rightarrow> [])
          @ (case r2 of Fulfilled v \<Rightarrow> v | Rejected e \<Rightarrow> [])
          @ (case r3 of Fulfilled v \<Rightarrow> v | Rejected e \<Rightarrow> []);
          errors =
            (case r1 of Fulfilled v \<Rightarrow> [] | Rejected e \<Rightarrow> [''torrents: unavailable''])
          @ (case r2 of Fulfilled v \<Rightarrow> [] | Rejected e \<Rightarrow> [''webdl: unavailable''])
          @ (case r3 of Fulfilled v \<Rightarrow> [] | Rejected e \<Rightarrow> [''usenet: unavailable''])
      in if allContainers = [] \<and> errors \<noteq> []
         then TextResponse 502 ''Upstream provider unavailable''
         else ListingResponse 200
                (containers (filterAndSortContainers collate allContainers compiledFilter
                   limit sortC sortO))
                (c_totalMatched (filterAndSortContainers collate allContainers compiledFilter
                   limit sortC sortO))
                errors)"
proof
  show "list_all_sources collate [Fulfilled [], Rejected reason, Fulfilled []]
     compiledFilter limit sortC sortO
   = TextResponse 502 ''Upstream provider unavailable''"
    by (simp add: list_all_sources_def collect_settled_def Let_def upt_rec)
  show "list_all_sources collate [r1, r2, r3] compiledFilter limit sortC sortO
   = (let allContainers =
            (case r1 of Fulfilled v \<Rightarrow> v | Rejected e \<Rightarrow> [])
          @ (case r2 of Fulfilled v \<Rightarrow> v | Rejected e \<Rightarrow> [])
          @ (case r3 of Fulfilled v \<Rightarrow> v | Rejected e \<Rightarrow> []);
          errors =
            (case r1 of Fulfilled v \<Rightarrow> [] | Rejected e \<Rightarrow> [''torrents: unavailable''])
          @ (case r2 of Fulfilled v \<Rightarrow> [] | Rejected e \<Rightarrow> [''webdl: unavailable''])
          @ (case r3 of Fulfilled v \<Rightarrow> [] | Rejected e \<Rightarrow> [''usenet: unavailable''])
      in if allContainers = [] \<and> errors \<noteq> []
         then TextResponse 502 ''Upstream provider unavailable''
         else ListingResponse 200
                (containers (filterAndSortContainers collate allContainers compiledFilter
                   limit sortC sortO))
                (c_totalMatched (filterAndSortContainers collate allContainers compiledFilter
                   limit sortC sortO))
                errors)"
    by (cases r1; cases r2; cases r3)
       (simp_all add: list_all_sources_def collect_settled_def Let_def upt_rec SOURCES_def
          source_name_def)
qed

section \<open>The input array is not changed\<close>

lemma filterAndSortFiles_store_eq:
  "filterAndSortFiles_store collate fs compiled limit column order h =
     ((Suc (length h),
       totalMatched (filterAndSortFiles collate (h ! fs) compiled limit column order)),
      h @ [js_sort (compareFiles collate column order)
             (filter (\<lambda>file. matchAll compiled \<or> regex compiled (full_name file)) (h ! fs)),
           shown_files (filterAndSortFiles collate (h ! fs) compiled limit column order)])"
  by (simp add: filterAndSortFiles_store_def filterAndSortFiles_def array_filter_def
      array_sort_def array_slice_def store_alloc_def Let_def nth_append length_js_sort)

lemma filterAndSortContainers_store_eq:
  "filterAndSortContainers_store collate cs compiled limit column order h =
     ((Suc (length h),
       c_totalMatched (filterAndSortContainers collate (h ! cs) compiled limit column order)),
      h @ [js_sort (compareContainers collate column order)
             (filter (containerMatches compiled) (h ! cs)),
           containers (filterAndSortContainers collate (h ! cs) compiled limit column order)])"
  by (simp add: filterAndSortContainers_store_def filterAndSortContainers_def array_filter_def
      array_sort_def array_slice_def store_alloc_def Let_def nth_append length_js_sort)

text \<open>
  C10. \<open>filterAndSortFiles\<close> and \<open>filterAndSortContainers\<close> change no array that
  exists when they are called, the input among them: the matches are collected in a
  new array, which is the one sorted in place, and the returned array is a third one.
  What they return is what the functions on lists compute from the input array.
\<close>

theorem input_not_mutated:
  "(fs < length h \<longrightarrow>
      (\<forall>a < length h. snd (filterAndSortFiles_store collate fs compiled limit column order h) ! a
                        = h ! a)
    \<and> snd (filterAndSortFiles_store collate fs compiled limit column order h) ! fs = h ! fs
    \<and> fst (fst (filterAndSortFiles_store collate fs compiled limit column order h)) \<ge> length h
    \<and> snd (filterAndSortFiles_store collate fs compiled limit column order h)
        ! fst (fst (filterAndSortFiles_store collate fs compiled limit column order h))
        = shown_files (filterAndSortFiles collate (h ! fs) compiled limit column order)
    \<and> snd (fst (filterAndSortFiles_store collate fs compiled limit column order h))
        = totalMatched (filterAndSortFiles collate (h ! fs) compiled limit column order))
   \<and> (cs < length g \<longrightarrow>
      (\<forall>a < length g. snd (filterAndSortContainers_store collate cs compiled limit column order g) ! a
                        = g ! a)
    \<and> snd (filterAndSortContainers_store collate cs compiled limit column order g) ! cs = g ! cs
    \<and> fst (fst (filterAndSortContainers_store collate cs compiled limit column order g)) \<ge> length g
    \<and> snd (filterAndSortContainers_store collate cs compiled limit column order g)
        ! fst (fst (filterAndSortContainers_store collate cs compiled limit column order g))
        = containers (filterAndSortContainers collate (g ! cs) compiled limit column order)
    \<and> snd (fst (filterAndSortContainers_store collate cs compiled limit column order g))
        = c_totalMatched (filterAndSortContainers collate (g ! cs) compiled limit column order))"
  by (simp add: filterAndSortFiles_store_eq filterAndSortContainers_store_eq nth_append)

theorem input_not_mutated_witness:
  "(0::nat) < length [[file_b, file_a]]
   \<and> snd (filterAndSortFiles_store simple_collate 0 \<lparr>regex = (\<lambda>s. False), matchAll = True\<rparr>
        1 ColN OrdA [[file_b, file_a]]) ! 0 = [file_b, file_a]
   \<and> snd (filterAndSortFiles_store simple_collate 0 \<lparr>regex = (\<lambda>s. False), matchAll = True\<rparr>
        1 ColN OrdA [[file_b, file_a]]) = [[file_b, file_a], [file_a, file_b], [file_a]]
   \<and> (0::nat) < length [[container_beta, container_alpha]]
   \<and> snd (filterAndSortContainers_store simple_collate 0 \<lparr>regex = (\<lambda>s. False), matchAll = True\<rparr>
        1 ColN OrdA [[container_beta, container_alpha]]) ! 0 = [container_beta, container_alpha]"
proof -
  let ?c = "\<lparr>regex = (\<lambda>s. False), matchAll = True\<rparr>"
  have 1: "(0::nat) < length [[file_b, file_a]]" by simp
  have 2: "(0::nat) < length [[container_beta, container_alpha]]" by simp
  note T = input_not_mutated[where fs = 0 and h = "[[file_b, file_a]]" and cs = 0
      and g = "[[container_beta, container_alpha]]" and collate = simple_collate and compiled = ?c
      and limit = 1 and column = ColN and order = OrdA]
  have a: "snd (filterAndSortFiles_store simple_collate 0 ?c 1 ColN OrdA [[file_b, file_a]]) ! 0
             = [file_b, file_a]"
    using T[THEN conjunct1, THEN mp, OF 1, THEN conjunct2, THEN conjunct1] by simp
  have b: "snd (filterAndSortContainers_store simple_collate 0 ?c 1 ColN OrdA
             [[container_beta, container_alpha]]) ! 0 = [container_beta, container_alpha]"
    using T[THEN conjunct2, THEN mp, OF 2, THEN conjunct2, THEN conjunct1] by simp
  have lt: "js_toLowerCase ''a.mkv'' < js_toLowerCase ''b.mkv''"
    by code_simp
  have nlt: "\<not> js_toLowerCase ''b.mkv'' < js_toLowerCase ''a.mkv''"
    using lt by (simp add: not_less less_imp_le)
  have ne: "js_toLowerCase ''b.mkv'' \<noteq> js_toLowerCase ''a.mkv''"
    using lt by auto
  have c: "snd (filterAndSortFiles_store simple_collate 0 ?c 1 ColN OrdA [[file_b, file_a]])
             = [[file_b, file_a], [file_a, file_b], [file_a]]"
    using lt nlt ne
    by (simp add: filterAndSortFiles_store_eq filterAndSortFiles_def js_sort_def compareFiles_def
        sortByName_def sortByNumber_def simple_collate_def js_slice_def Let_def file_a_def
        file_b_def)
  show ?thesis by (intro conjI) (rule 1 a c 2 b)+
qed

end
